theory Spec2Isabelle
  imports Complex_Main "HOL-Library.Sublist"
begin

section \<open>Data model (schemas.py)\<close>

text \<open>
  Python strings are modelled as \<^typ>\<open>string\<close>, read as sequences of code points
  below 256. Python integers are \<^typ>\<open>int\<close>; lengths and token counts are
  \<^typ>\<open>nat\<close> and are injected into \<^typ>\<open>int\<close> where the code does arithmetic on them.
\<close>

datatype py_error = KeyError | ValueError | RuntimeError | IndexError

datatype Role = System | User | Assistant

record SearchResult =
  sr_title :: string
  sr_url :: string
  sr_snippet :: string

record ChatMessage =
  role :: Role
  content :: string
  timestamp :: "nat option"
  sources :: "SearchResult list option"

text \<open>
  \<open>str.isspace\<close> on code points below 256: the characters \<open>str.strip()\<close> and
  \<open>str.split()\<close> treat as whitespace.
\<close>

definition is_space :: "char \<Rightarrow> bool" where
  "is_space c = (of_char c \<in> {9, 10, 11, 12, 13, 28, 29, 30, 31, 32, 133, 160 :: nat})"

definition strip :: "string \<Rightarrow> string" where
  "strip s = rev (dropWhile is_space (rev (dropWhile is_space s)))"

text \<open>
  The constructor \<open>ChatMessage(role=r, content=c)\<close> with its \<open>content_not_empty\<close>
  validator: empty or all-whitespace content raises \<open>ValueError\<close>, otherwise the
  stored content is the stripped one; \<open>timestamp\<close> and \<open>sources\<close> default to \<open>None\<close>.
\<close>

definition mk_ChatMessage :: "Role \<Rightarrow> string \<Rightarrow> py_error + ChatMessage" where
  "mk_ChatMessage r c =
     (if c = [] \<or> strip c = [] then Inl ValueError
      else Inr \<lparr>role = r, content = strip c, timestamp = None, sources = None\<rparr>)"

text \<open>A message that passed the validator: its content is non-empty and already stripped.\<close>

definition validated :: "ChatMessage \<Rightarrow> bool" where
  "validated m = (content m \<noteq> [] \<and> strip (content m) = content m)"

section \<open>ConversationStore (chat\_manager.py)\<close>

text \<open>
  The \<open>OrderedDict\<close> of sessions is an association list in dictionary order: the head
  is what \<open>popitem(last=False)\<close> removes, the last entry is where \<open>move_to_end\<close> puts
  a key. Keys are distinct in every dictionary.
\<close>

type_synonym session_dict = "(string \<times> ChatMessage list) list"

record ConversationStore =
  sessions :: session_dict
  max_sessions :: int

definition empty_store :: "int \<Rightarrow> ConversationStore" where
  "empty_store cap = \<lparr>sessions = [], max_sessions = cap\<rparr>"

definition contains :: "session_dict \<Rightarrow> string \<Rightarrow> bool" where
  "contains d k = (k \<in> set (map fst d))"

text \<open>
  \<open>move_to_end(k)\<close>. Both callers guard it with \<open>k in self.sessions\<close> (or have just
  inserted \<open>k\<close>); on an absent key, where Python raises, the model leaves the
  dictionary as it is.
\<close>

definition move_to_end :: "string \<Rightarrow> session_dict \<Rightarrow> session_dict" where
  "move_to_end k d =
     (case map_of d k of
        None \<Rightarrow> d
      | Some v \<Rightarrow> filter (\<lambda>p. fst p \<noteq> k) d @ [(k, v)])"

text \<open>\<open>popitem(last=False)\<close>: removes the first entry, \<open>KeyError\<close> on an empty dictionary.\<close>

definition popitem_first :: "session_dict \<Rightarrow> py_error + session_dict" where
  "popitem_first d = (case d of [] \<Rightarrow> Inl KeyError | _ # rest \<Rightarrow> Inr rest)"

definition get :: "ConversationStore \<Rightarrow> string \<Rightarrow> ChatMessage list \<times> ConversationStore" where
  "get st session_id =
     (case map_of (sessions st) session_id of
        Some msgs \<Rightarrow> (msgs, st\<lparr>sessions := move_to_end session_id (sessions st)\<rparr>)
      | None \<Rightarrow> ([], st))"

text \<open>
  \<open>message.timestamp = datetime.now()\<close> when the message has none; the clock reading
  is the parameter \<open>now\<close>.
\<close>

definition backfill :: "nat \<Rightarrow> ChatMessage \<Rightarrow> ChatMessage" where
  "backfill now m = (if timestamp m = None then m\<lparr>timestamp := Some now\<rparr> else m)"

definition append_message :: "string \<Rightarrow> ChatMessage \<Rightarrow> session_dict \<Rightarrow> session_dict" where
  "append_message k m d = map (\<lambda>(k', msgs). if k' = k then (k', msgs @ [m]) else (k', msgs)) d"

text \<open>
  \<open>add_message\<close>. The only raise is \<open>popitem\<close> on an empty dictionary, reached when
  \<open>max_sessions \<le> 0\<close>; it happens before any mutation.
\<close>

definition add_message ::
  "ConversationStore \<Rightarrow> string \<Rightarrow> ChatMessage \<Rightarrow> nat \<Rightarrow> py_error + ConversationStore" where
  "add_message st session_id message now =
     (case (if \<not> contains (sessions st) session_id
            then (case (if int (length (sessions st)) \<ge> max_sessions st
                        then popitem_first (sessions st)
                        else Inr (sessions st)) of
                    Inl e \<Rightarrow> Inl e
                  | Inr d \<Rightarrow> Inr (d @ [(session_id, [])]))
            else Inr (sessions st)) of
        Inl e \<Rightarrow> Inl e
      | Inr d \<Rightarrow>
          Inr (st\<lparr>sessions :=
                 append_message session_id (backfill now message) (move_to_end session_id d)\<rparr>))"

definition clear :: "ConversationStore \<Rightarrow> string \<Rightarrow> bool \<times> ConversationStore" where
  "clear st session_id =
     (if contains (sessions st) session_id
      then (True, st\<lparr>sessions := filter (\<lambda>p. fst p \<noteq> session_id) (sessions st)\<rparr>)
      else (False, st))"

definition get_all_sessions :: "ConversationStore \<Rightarrow> string list" where
  "get_all_sessions st = map fst (sessions st)"

subsection \<open>Operation sequences with a recency log\<close>

text \<open>
  A caller's sequence of store operations. An \<open>add_message\<close> that raises leaves the
  store as it was, and the caller goes on. Beside the store, the run keeps a log that
  is not part of the program: the time (the position of the operation, counted from 1)
  at which each session id was last touched, where a \<open>get\<close> on a present id and a
  successful \<open>add_message\<close> are the touches.
\<close>

datatype store_op = Get string | Add string ChatMessage nat | Clear string

fun apply_op :: "ConversationStore \<Rightarrow> store_op \<Rightarrow> ConversationStore" where
  "apply_op st (Get k) = snd (get st k)"
| "apply_op st (Add k m now) = (case add_message st k m now of Inl _ \<Rightarrow> st | Inr st' \<Rightarrow> st')"
| "apply_op st (Clear k) = snd (clear st k)"

fun touched_by :: "ConversationStore \<Rightarrow> store_op \<Rightarrow> string option" where
  "touched_by st (Get k) = (if contains (sessions st) k then Some k else None)"
| "touched_by st (Add k m now) = (case add_message st k m now of Inl _ \<Rightarrow> None | Inr _ \<Rightarrow> Some k)"
| "touched_by st (Clear k) = None"

record traced =
  tr_store :: ConversationStore
  last_touched :: "string \<Rightarrow> nat"
  tr_time :: nat

definition traced_step :: "traced \<Rightarrow> store_op \<Rightarrow> traced" where
  "traced_step t op =
     \<lparr>tr_store = apply_op (tr_store t) op,
      last_touched = (case touched_by (tr_store t) op of
                        None \<Rightarrow> last_touched t
                      | Some k \<Rightarrow> (last_touched t)(k := Suc (tr_time t))),
      tr_time = Suc (tr_time t)\<rparr>"

definition run_ops :: "int \<Rightarrow> store_op list \<Rightarrow> traced" where
  "run_ops cap ops =
     foldl traced_step \<lparr>tr_store = empty_store cap, last_touched = (\<lambda>_. 0), tr_time = 0\<rparr> ops"

section \<open>Configuration (config.py)\<close>

text \<open>
  The settings the modelled functions read. All but the end-of-sequence id come
  from environment variables, so they are fields of a parameter; \<open>default_config\<close>
  holds the defaults of config.py.
\<close>

record config =
  MAX_CONTEXT_TOKENS :: int
  DEFAULT_MAX_TOKENS :: int
  DEFAULT_TEMPERATURE :: real
  DEFAULT_TOP_P :: real
  REPETITION_PENALTY :: real
  SEARCH_ENABLED :: bool
  SEARCH_MAX_RESULTS :: int
  SEARCH_RETRY_ATTEMPTS :: int
  SEARCH_TRIGGER_KEYWORDS :: "string list"
  GPT2_BLOCK_SIZE :: int


definition default_config :: config where
  "default_config =
     \<lparr>MAX_CONTEXT_TOKENS = 1024, DEFAULT_MAX_TOKENS = 256, DEFAULT_TEMPERATURE = 7 / 10,
      DEFAULT_TOP_P = 9 / 10, REPETITION_PENALTY = 115 / 100, SEARCH_ENABLED = True,
      SEARCH_MAX_RESULTS = 3, SEARCH_RETRY_ATTEMPTS = 2,
      SEARCH_TRIGGER_KEYWORDS =
        [''search'', ''browse'', ''google'', ''internet'', ''lookup'', ''find online'',
         ''stock'', ''price'', ''today'', ''current'', ''latest'', ''now'', ''weather'',
         ''news'', ''score'', ''rate'', ''live'', ''recent'', ''update'', ''2024'', ''2025'',
         ''who is'', ''what is the current'', ''how much''],
      GPT2_BLOCK_SIZE = 1024\<rparr>"

text \<open>\<open>x or default\<close> on an optional integer: \<open>None\<close> and \<open>0\<close> are falsy.\<close>

definition int_or :: "int option \<Rightarrow> int \<Rightarrow> int" where
  "int_or x d = (case x of None \<Rightarrow> d | Some n \<Rightarrow> if n = 0 then d else n)"

section \<open>String helpers\<close>

definition nl :: string where
  "nl = [CHR 0x0A]"

text \<open>\<open>sep.join(parts)\<close>.\<close>

fun join :: "string \<Rightarrow> string list \<Rightarrow> string" where
  "join sep [] = []"
| "join sep [x] = x"
| "join sep (x # y # ys) = x @ sep @ join sep (y # ys)"

text \<open>\<open>str.lower()\<close> on code points below 256.\<close>

definition lower_char :: "char \<Rightarrow> char" where
  "lower_char c =
     (let n = (of_char c :: nat)
      in if (65 \<le> n \<and> n \<le> 90) \<or> (192 \<le> n \<and> n \<le> 222 \<and> n \<noteq> 215)
         then char_of (n + 32) else c)"

definition lower :: "string \<Rightarrow> string" where
  "lower s = map lower_char s"

text \<open>\<open>s.startswith(p)\<close> and \<open>p in s\<close>.\<close>

fun startswith :: "string \<Rightarrow> string \<Rightarrow> bool" where
  "startswith s [] = True"
| "startswith [] (p # ps) = False"
| "startswith (c # cs) (p # ps) = (c = p \<and> startswith cs ps)"

fun is_in :: "string \<Rightarrow> string \<Rightarrow> bool" where
  "is_in p [] = (p = [])"
| "is_in p (c # cs) = (startswith (c # cs) p \<or> is_in p cs)"

text \<open>\<open>str(i)\<close> for a natural number.\<close>

fun str_nat :: "nat \<Rightarrow> string" where
  "str_nat n =
     (if n < 10 then [''0123456789'' ! n]
      else str_nat (n div 10) @ [''0123456789'' ! (n mod 10)])"

section \<open>The token codec (model\_service.py, tiktoken)\<close>

text \<open>
  \<open>ModelService.encode\<close> hands the text to the tiktoken GPT-2 encoder, a library
  outside the repository: it is the parameter \<open>enc\<close> of everything that counts or
  encodes. The functions below are modelled for a loaded tokenizer; main.py answers
  503 before calling them otherwise.
\<close>

type_synonym codec = "string \<Rightarrow> nat list"

definition count_tokens :: "codec \<Rightarrow> string \<Rightarrow> nat" where
  "count_tokens enc text = length (enc text)"

text \<open>
  A stand-in codec for evaluating the model at concrete inputs: one token per
  character.
\<close>

definition char_codec :: codec where
  "char_codec text = map of_char text"

section \<open>SearchService (search\_service.py)\<close>

text \<open>
  A raw result is the dictionary the DuckDuckGo client returns, read through
  \<open>res.get\<close>: \<open>None\<close> is a missing key. A hit is a validated result.
\<close>

record raw_result =
  raw_title :: "string option"
  raw_href :: "string option"
  raw_body :: "string option"

record hit =
  hit_title :: string
  hit_href :: string
  hit_body :: string

text \<open>
  The DuckDuckGo client is outside the repository. Within one call of \<open>search\<close>
  each pair of attempt number and backend is queried at most once, so any behaviour
  of the client during the call is a function of that pair (and of the arguments
  passed): whether constructing \<open>DDGS()\<close> succeeds when it is still to be
  constructed, and whether \<open>text\<close> raises or returns a list.
\<close>

datatype backend = DefaultBackend | LiteBackend

datatype call_outcome = Raises | Returns "raw_result list"

record gateway =
  ddgs_init_ok :: "nat \<Rightarrow> backend \<Rightarrow> bool"
  ddgs_text :: "string \<Rightarrow> int \<Rightarrow> nat \<Rightarrow> backend \<Rightarrow> call_outcome"

record search_state =
  ddgs_ready :: bool
  available :: bool

definition is_available :: "config \<Rightarrow> search_state \<Rightarrow> bool" where
  "is_available cfg ss = (available ss \<and> SEARCH_ENABLED cfg)"

text \<open>
  One evaluation of \<open>self.ddgs.text(...)\<close>: the lazy property constructs the client
  first if there is none (a failure clears \<open>_available\<close> and raises again).
\<close>

definition ddgs_call ::
  "gateway \<Rightarrow> search_state \<Rightarrow> string \<Rightarrow> int \<Rightarrow> nat \<Rightarrow> backend \<Rightarrow> call_outcome \<times> search_state" where
  "ddgs_call gw ss q n attempt b =
     (if ddgs_ready ss then (ddgs_text gw q n attempt b, ss)
      else if ddgs_init_ok gw attempt b
           then (ddgs_text gw q n attempt b, ss\<lparr>ddgs_ready := True\<rparr>)
           else (Raises, ss\<lparr>available := False\<rparr>))"

definition truthy :: "string option \<Rightarrow> bool" where
  "truthy v = (case v of None \<Rightarrow> False | Some s \<Rightarrow> s \<noteq> [])"

definition validate_results :: "raw_result list \<Rightarrow> hit list" where
  "validate_results results =
     concat (map (\<lambda>res.
        if truthy (raw_title res) \<and> truthy (raw_href res) \<and> truthy (raw_body res)
        then [\<lparr>hit_title = strip (the (raw_title res)),
               hit_href = strip (the (raw_href res)),
               hit_body = take 500 (strip (the (raw_body res)))\<rparr>]
        else []) results)"

fun remove_prefix :: "string list \<Rightarrow> string \<Rightarrow> string" where
  "remove_prefix [] clean = clean"
| "remove_prefix (p # ps) clean =
     (if startswith clean p then strip (drop (length p) clean) else remove_prefix ps clean)"

definition clean_query :: "string \<Rightarrow> string" where
  "clean_query query =
     (let clean = remove_prefix
                    [''can you tell me'', ''please tell me'', ''i want to know'',
                     ''what do you know about'', ''search for'', ''look up'', ''find out'']
                    (strip (lower query))
      in if clean \<noteq> [] then clean else query)"

text \<open>
  The retry loop \<open>for attempt in range(SEARCH_RETRY_ATTEMPTS)\<close>. Everything in its
  body stands inside \<open>try\<close>; the handler logs, sleeps and continues.
\<close>

fun search_loop ::
  "gateway \<Rightarrow> string \<Rightarrow> int \<Rightarrow> nat list \<Rightarrow> search_state \<Rightarrow> hit list \<times> search_state" where
  "search_loop gw q n [] ss = ([], ss)"
| "search_loop gw q n (attempt # rest) ss =
     (case ddgs_call gw ss q n attempt DefaultBackend of
        (Raises, ss1) \<Rightarrow> search_loop gw q n rest ss1
      | (Returns results, ss1) \<Rightarrow>
          if results \<noteq> [] then (validate_results results, ss1)
          else if attempt = 0 then
            (case ddgs_call gw ss1 q n attempt LiteBackend of
               (Raises, ss2) \<Rightarrow> search_loop gw q n rest ss2
             | (Returns results2, ss2) \<Rightarrow>
                 if results2 \<noteq> [] then (validate_results results2, ss2)
                 else search_loop gw q n rest ss2)
          else search_loop gw q n rest ss1)"

definition search ::
  "config \<Rightarrow> gateway \<Rightarrow> search_state \<Rightarrow> string \<Rightarrow> int option \<Rightarrow> hit list \<times> search_state" where
  "search cfg gw ss query max_results =
     (if \<not> is_available cfg ss then ([], ss)
      else search_loop gw (clean_query query) (int_or max_results (SEARCH_MAX_RESULTS cfg))
             [0 ..< nat (SEARCH_RETRY_ATTEMPTS cfg)] ss)"

fun format_parts :: "nat \<Rightarrow> hit list \<Rightarrow> string list" where
  "format_parts i [] = []"
| "format_parts i (res # rest) =
     [''[Source '' @ str_nat i @ '']'',
      ''Title: '' @ hit_title res,
      ''URL: '' @ hit_href res,
      ''Content: '' @ hit_body res,
      ''''] @ format_parts (Suc i) rest"

definition format_results_for_prompt :: "hit list \<Rightarrow> string" where
  "format_results_for_prompt results =
     (if results = [] then ''No search results available.''
      else join nl ([''=== WEB SEARCH RESULTS ==='' @ nl] @ format_parts 1 results
                    @ [''=== END SEARCH RESULTS ===''])) "

definition extract_sources_for_response :: "hit list \<Rightarrow> SearchResult list" where
  "extract_sources_for_response results =
     map (\<lambda>res. \<lparr>sr_title = hit_title res, sr_url = hit_href res,
                  sr_snippet = take 200 (hit_body res)\<rparr>) results"

section \<open>ChatManager (chat\_manager.py)\<close>

definition DEFAULT_SYSTEM :: string where
  \<open>DEFAULT_SYSTEM =
     ''You are a helpful AI assistant. Be concise and accurate. '' @
     ''If you don't know something, say so honestly.''\<close>

definition SEARCH_SYSTEM :: string where
  \<open>SEARCH_SYSTEM =
     ''You are a helpful AI assistant with access to web search results. '' @
     ''IMPORTANT: Base your answer ONLY on the search results provided below. '' @
     ''Do NOT make up information. If the search results don't contain the answer, say so.''\<close>

definition role_str :: "Role \<Rightarrow> string" where
  "role_str r = (case r of System \<Rightarrow> ''system'' | User \<Rightarrow> ''user'' | Assistant \<Rightarrow> ''assistant'')"

definition should_search :: "config \<Rightarrow> string \<Rightarrow> bool" where
  "should_search cfg query =
     (if \<not> SEARCH_ENABLED cfg then False
      else list_ex (\<lambda>keyword. is_in keyword (lower query)) (SEARCH_TRIGGER_KEYWORDS cfg))"

definition history_line :: "ChatMessage \<Rightarrow> string list" where
  "history_line msg =
     (if role msg = User then [''User: '' @ content msg]
      else if role msg = Assistant then [''Assistant: '' @ content msg]
      else [])"

definition build_history_context :: "ChatMessage list \<Rightarrow> string" where
  "build_history_context messages =
     (if messages = [] then ''''
      else (let history_parts = concat (map history_line messages)
            in if history_parts \<noteq> []
               then ''Previous conversation:'' @ nl @ join nl history_parts @ nl @ nl
               else ''''))"

text \<open>
  The loop of \<open>_build_prompt\<close> over the messages, with its two variables. A user
  message replaces \<open>last_user_msg\<close>; the one it replaces is appended to the history
  at that moment, as a fresh \<open>ChatMessage\<close> (whose validator can raise).
\<close>

fun build_prompt_loop ::
  "ChatMessage list \<Rightarrow> string \<Rightarrow> ChatMessage list \<Rightarrow> py_error + (string \<times> ChatMessage list)" where
  "build_prompt_loop [] last_user_msg history_msgs = Inr (last_user_msg, history_msgs)"
| "build_prompt_loop (msg # rest) last_user_msg history_msgs =
     (if role msg = User then
        (if last_user_msg \<noteq> [] then
           (case mk_ChatMessage User last_user_msg of
              Inl e \<Rightarrow> Inl e
            | Inr h \<Rightarrow> build_prompt_loop rest (content msg) (history_msgs @ [h]))
         else build_prompt_loop rest (content msg) history_msgs)
      else if role msg = Assistant then build_prompt_loop rest last_user_msg (history_msgs @ [msg])
      else build_prompt_loop rest last_user_msg history_msgs)"

definition ungrounded_template :: "string \<Rightarrow> string \<Rightarrow> string" where
  "ungrounded_template history_context last_user_msg =
     DEFAULT_SYSTEM @ nl @ nl @
     history_context @
     ''### Instruction:'' @ nl @ last_user_msg @ nl @ nl @
     ''### Response:'' @ nl"

definition grounded_template :: "string \<Rightarrow> string \<Rightarrow> string \<Rightarrow> string" where
  \<open>grounded_template search_results history_context last_user_msg =
     SEARCH_SYSTEM @ nl @ nl @
     ''### Search Results:'' @ nl @ search_results @ nl @ nl @
     history_context @
     ''### User Question:'' @ nl @ last_user_msg @ nl @ nl @
     ''### Instructions:'' @ nl @
     ''1. Answer based ONLY on the search results above'' @ nl @
     ''2. Quote specific facts, numbers, or prices directly'' @ nl @
     ''3. Cite which source you used'' @ nl @
     ''4. If the answer isn't in the results, say "I couldn't find that information"'' @ nl @ nl @
     ''### Response:'' @ nl\<close>

definition build_prompt :: "ChatMessage list \<Rightarrow> string option \<Rightarrow> py_error + string" where
  "build_prompt messages search_results =
     (case build_prompt_loop messages '''' [] of
        Inl e \<Rightarrow> Inl e
      | Inr (last_user_msg, history_msgs) \<Rightarrow>
          (let history_context = build_history_context history_msgs
           in if truthy search_results
              then Inr (grounded_template (the search_results) history_context last_user_msg)
              else Inr (ungrounded_template history_context last_user_msg)))"

text \<open>
  \<open>_truncate_messages\<close>: the loop over \<open>reversed(messages)\<close> with \<open>selected\<close> and
  \<open>current_tokens\<close>; \<open>break\<close> at the first message that does not fit.
\<close>

definition msg_tokens :: "codec \<Rightarrow> ChatMessage \<Rightarrow> nat" where
  "msg_tokens enc msg = count_tokens enc (role_str (role msg) @ '': '' @ content msg)"

fun truncate_loop ::
  "codec \<Rightarrow> int \<Rightarrow> ChatMessage list \<Rightarrow> ChatMessage list \<Rightarrow> int \<Rightarrow> ChatMessage list" where
  "truncate_loop enc available_tokens [] selected current_tokens = selected"
| "truncate_loop enc available_tokens (msg # rest) selected current_tokens =
     (if current_tokens + int (msg_tokens enc msg) \<le> available_tokens
      then truncate_loop enc available_tokens rest (msg # selected)
             (current_tokens + int (msg_tokens enc msg))
      else selected)"

definition truncate_messages :: "codec \<Rightarrow> ChatMessage list \<Rightarrow> int \<Rightarrow> ChatMessage list" where
  "truncate_messages enc messages max_tokens =
     (if messages = [] then messages
      else truncate_loop enc (max_tokens - 200) (rev messages) [] 0)"

text \<open>
  \<open>prepare_prompt\<close>. The first loop appends each new message to the local copy of
  the history and to the store; \<open>add_message\<close> stamps the message object, which the
  local history shares. \<open>clock i\<close> is the clock reading when the \<open>i\<close>-th new message
  is stored. A raise leaves the store and the search service as they are at that
  moment, so the result pairs the outcome with both.
\<close>

fun add_new_messages ::
  "(nat \<Rightarrow> nat) \<Rightarrow> nat \<Rightarrow> string \<Rightarrow> ChatMessage list
     \<Rightarrow> ChatMessage list \<Rightarrow> ConversationStore \<Rightarrow> ChatMessage option
     \<Rightarrow> (py_error + ChatMessage list \<times> ChatMessage option) \<times> ConversationStore" where
  "add_new_messages clock i session_id [] history st last_user_msg =
     (Inr (history, last_user_msg), st)"
| "add_new_messages clock i session_id (msg # rest) history st last_user_msg =
     (case add_message st session_id msg (clock i) of
        Inl e \<Rightarrow> (Inl e, st)
      | Inr st' \<Rightarrow>
          add_new_messages clock (Suc i) session_id rest
            (history @ [backfill (clock i) msg]) st'
            (if role msg = User then Some (backfill (clock i) msg) else last_user_msg))"

type_synonym prepared = "string \<times> nat \<times> SearchResult list option \<times> bool"

definition prepare_prompt ::
  "config \<Rightarrow> codec \<Rightarrow> gateway \<Rightarrow> (nat \<Rightarrow> nat)
     \<Rightarrow> ConversationStore \<Rightarrow> search_state
     \<Rightarrow> string \<Rightarrow> ChatMessage list \<Rightarrow> int option
     \<Rightarrow> (py_error + prepared) \<times> ConversationStore \<times> search_state" where
  "prepare_prompt cfg enc gw clock st ss session_id new_messages max_tokens =
     (case get st session_id of (stored, st0) \<Rightarrow>
      (case add_new_messages clock 0 session_id new_messages stored st0 None of
         (Inl e, st1) \<Rightarrow> (Inl e, st1, ss)
       | (Inr (history, last_user_msg), st1) \<Rightarrow>
           (case (case last_user_msg of
                    None \<Rightarrow> ([], ss)
                  | Some m \<Rightarrow> if should_search cfg (content m)
                              then search cfg gw ss (content m) None
                              else ([], ss)) of
              (results, ss1) \<Rightarrow>
                (let used_search = (results \<noteq> []);
                     search_results = (if results \<noteq> []
                                       then Some (format_results_for_prompt results) else None);
                     srcs = (if results \<noteq> []
                             then Some (extract_sources_for_response results) else None);
                     max_ctx = int_or max_tokens (MAX_CONTEXT_TOKENS cfg);
                     truncated = truncate_messages enc history max_ctx
                 in (case build_prompt truncated search_results of
                       Inl e \<Rightarrow> (Inl e, st1, ss1)
                     | Inr prompt \<Rightarrow>
                         (Inr (prompt, count_tokens enc prompt, srcs, used_search), st1, ss1))))))"

text \<open>The new messages as the store stamps them, from clock position \<open>i\<close> on.\<close>

fun stamp_all :: "(nat \<Rightarrow> nat) \<Rightarrow> nat \<Rightarrow> ChatMessage list \<Rightarrow> ChatMessage list" where
  "stamp_all clock i [] = []"
| "stamp_all clock i (m # ms) = backfill (clock i) m # stamp_all clock (Suc i) ms"

text \<open>The cumulative role-plus-content token cost of a list of messages.\<close>

definition total_tokens :: "codec \<Rightarrow> ChatMessage list \<Rightarrow> nat" where
  "total_tokens enc msgs = sum_list (map (msg_tokens enc) msgs)"

text \<open>
  Example values used to evaluate the model at concrete inputs: a message without
  timestamp and sources, a search client whose every call raises, a search service
  that has not been used yet, and a clock.
\<close>

definition mk_msg :: "Role \<Rightarrow> string \<Rightarrow> ChatMessage" where
  "mk_msg r c = \<lparr>role = r, content = c, timestamp = None, sources = None\<rparr>"

definition gateway_down :: gateway where
  "gateway_down = \<lparr>ddgs_init_ok = (\<lambda>_ _. True), ddgs_text = (\<lambda>_ _ _ _. Raises)\<rparr>"

definition fresh_search_state :: search_state where
  "fresh_search_state = \<lparr>ddgs_ready = False, available = True\<rparr>"

definition example_clock :: "nat \<Rightarrow> nat" where
  "example_clock i = 100 + i"

section \<open>ModelService (model\_service.py)\<close>





text \<open>
  The slice \<open>xs[start:]\<close>: a negative start counts from the end, and \<open>-0\<close> is \<open>0\<close>.
\<close>

definition slice_from :: "int \<Rightarrow> 'a list \<Rightarrow> 'a list" where
  "slice_from start xs =
     (if start < 0 then drop (nat (int (length xs) + start)) xs else drop (nat start) xs)"

text \<open>The token-level truncation at the start of \<open>generate\<close> and \<open>generate_stream\<close>.\<close>

definition truncate_input_ids :: "config \<Rightarrow> int \<Rightarrow> nat list \<Rightarrow> nat list" where
  "truncate_input_ids cfg max_tokens input_ids =
     (let max_context = GPT2_BLOCK_SIZE cfg
      in if int (length input_ids) > max_context - max_tokens
         then slice_from (- (max_context - max_tokens)) input_ids
         else input_ids)"

















text \<open>
  A concrete \<open>torch.softmax\<close> for evaluating the model. \<open>torch.softmax\<close> computes
  \<open>exp (x - max) / sum\<close> in single precision, where \<open>exp d\<close> is exactly \<open>1.0\<close> for
  \<open>- 2^-25 < d \<le> 0\<close>: the true value lies above \<open>1 - 2^-25\<close>, nearer to \<open>1.0\<close> than to
  the next number below it. This rounding, which gives a score that close to the
  greatest one the same probability as the greatest, is the one that is modelled;
  \<open>-inf\<close> has weight 0.
\<close>

definition max_score :: "real option list \<Rightarrow> real" where
  "max_score xs = (case List.map_filter id xs of [] \<Rightarrow> 0 | x # rest \<Rightarrow> fold max rest x)"








text \<open>The keys of the traced store, and the invariant every run keeps.\<close>

definition keys_of :: "traced \<Rightarrow> string list" where
  "keys_of t = map fst (sessions (tr_store t))"

definition store_inv :: "int \<Rightarrow> traced \<Rightarrow> bool" where
  "store_inv cap t \<longleftrightarrow>
     distinct (keys_of t) \<and>
     sorted_wrt (\<lambda>a b. last_touched t a < last_touched t b) (keys_of t) \<and>
     (\<forall>k \<in> set (keys_of t). last_touched t k \<le> tr_time t) \<and>
     max_sessions (tr_store t) = cap \<and>
     (0 \<le> cap \<longrightarrow> int (length (keys_of t)) \<le> cap)"

text \<open>Example values used to evaluate the store at concrete inputs.\<close>

definition hello :: ChatMessage where
  "hello = \<lparr>role = User, content = ''Hello'', timestamp = None, sources = None\<rparr>"

definition example_ops :: "store_op list" where
  "example_ops = [Add ''A'' hello 1, Add ''B'' hello 2, Get ''A'']"

section \<open>Properties of the conversation store\<close>

lemma keys_move_to_end:
  "map fst (move_to_end k d) = (if k \<in> set (map fst d) then filter (\<lambda>x. x \<noteq> k) (map fst d) @ [k] else map fst d)"
proof (cases "map_of d k")
  case None
  then have "k \<notin> set (map fst d)" by (simp add: map_of_eq_None_iff)
  then show ?thesis using None by (simp add: move_to_end_def)
next
  case (Some v)
  then have "k \<in> set (map fst d)" by (metis map_of_eq_None_iff option.distinct(1) set_map)
  then show ?thesis using Some by (simp add: move_to_end_def filter_map comp_def)
qed

lemma keys_append_message: "map fst (append_message k m d) = map fst d"
  by (induction d) (auto simp: append_message_def)

lemma keys_filter: "map fst (filter (\<lambda>p. fst p \<noteq> k) d) = filter (\<lambda>x. x \<noteq> k) (map fst d)"
  by (simp add: filter_map comp_def)

lemma sorted_wrt_filter_snoc:
  assumes "sorted_wrt (\<lambda>a b. f a < f b) ks" "\<forall>x \<in> set ks. f x \<le> (n::nat)"
  shows "sorted_wrt (\<lambda>a b. (f(k := Suc n)) a < (f(k := Suc n)) b) (filter (\<lambda>x. x \<noteq> k) ks @ [k])"
proof -
  have "sorted_wrt (\<lambda>a b. f a < f b) (filter (\<lambda>x. x \<noteq> k) ks)"
    using assms(1) by (rule sorted_wrt_filter)
  then have "sorted_wrt (\<lambda>a b. (f(k := Suc n)) a < (f(k := Suc n)) b) (filter (\<lambda>x. x \<noteq> k) ks)"
    by (rule sorted_wrt_mono_rel[rotated]) auto
  then show ?thesis using assms(2) by (auto simp: sorted_wrt_append less_Suc_eq_le)
qed

lemma add_message_keys:
  assumes "add_message st k m now = Inr st'"
  shows "map fst (sessions st') =
           (if k \<in> set (map fst (sessions st)) then filter (\<lambda>x. x \<noteq> k) (map fst (sessions st)) @ [k]
            else if int (length (sessions st)) \<ge> max_sessions st
                 then filter (\<lambda>x. x \<noteq> k) (tl (map fst (sessions st))) @ [k]
                 else filter (\<lambda>x. x \<noteq> k) (map fst (sessions st)) @ [k])"
    and "max_sessions st' = max_sessions st"
  using assms
  by (force simp: add_message_def contains_def popitem_first_def keys_move_to_end keys_append_message
      split: if_splits sum.splits list.splits)+

lemma store_inv_init: "store_inv cap \<lparr>tr_store = empty_store cap, last_touched = (\<lambda>_. 0), tr_time = 0\<rparr>"
  by (simp add: store_inv_def keys_of_def empty_store_def)

lemma length_filter_neq_notin:
  "k \<notin> set ks \<Longrightarrow> filter (\<lambda>x. x \<noteq> k) ks = ks"
  by (induction ks) auto

lemma length_filter_neq_distinct:
  "distinct ks \<Longrightarrow> k \<in> set ks \<Longrightarrow> Suc (length (filter (\<lambda>x. x \<noteq> k) ks)) = length ks"
  by (induction ks) (auto simp: length_filter_neq_notin)

lemma sorted_wrt_tl: "sorted_wrt P ks \<Longrightarrow> sorted_wrt P (tl ks)"
  by (cases ks) auto

lemma add_message_Inr:
  assumes "add_message st k m now = Inr st'"
  obtains X where "map fst (sessions st') = filter (\<lambda>x. x \<noteq> k) X @ [k]"
    and "max_sessions st' = max_sessions st"
    and "(X = map fst (sessions st) \<and> (k \<in> set (map fst (sessions st)) \<or> int (length (sessions st)) < max_sessions st))
       \<or> (X = tl (map fst (sessions st)) \<and> sessions st \<noteq> [] \<and> k \<notin> set (map fst (sessions st))
           \<and> max_sessions st \<le> int (length (sessions st)))"
proof (cases "k \<in> set (map fst (sessions st))")
  case True
  with add_message_keys[OF assms] that[of "map fst (sessions st)"] show ?thesis by simp
next
  case notin: False
  show ?thesis
  proof (cases "int (length (sessions st)) \<ge> max_sessions st")
    case True
    have "sessions st \<noteq> []" using assms notin True
      by (auto simp: add_message_def contains_def popitem_first_def)
    with add_message_keys[OF assms] that[of "tl (map fst (sessions st))"] notin True
    show ?thesis by simp
  next
    case False
    with add_message_keys[OF assms] that[of "map fst (sessions st)"] notin show ?thesis by simp
  qed
qed

lemma store_inv_step:
  assumes "store_inv cap t"
  shows "store_inv cap (traced_step t op)"
proof (cases op)
  case (Get k)
  show ?thesis
  proof (cases "contains (sessions (tr_store t)) k")
    case True
    then obtain v where v: "map_of (sessions (tr_store t)) k = Some v"
      by (cases "map_of (sessions (tr_store t)) k") (auto simp: contains_def map_of_eq_None_iff)
    have ks: "keys_of (traced_step t op) = filter (\<lambda>x. x \<noteq> k) (keys_of t) @ [k]"
      using True v by (simp add: Get traced_step_def get_def keys_of_def keys_move_to_end contains_def)
    have lt: "last_touched (traced_step t op) = (last_touched t)(k := Suc (tr_time t))"
      using True by (simp add: Get traced_step_def)
    have len: "length (filter (\<lambda>x. x \<noteq> k) (keys_of t) @ [k]) = length (keys_of t)"
      using True assms
      by (simp add: store_inv_def contains_def keys_of_def[symmetric] length_filter_neq_distinct)
    show ?thesis
      unfolding store_inv_def ks lt
      using assms len sorted_wrt_filter_snoc[of "last_touched t" "keys_of t" "tr_time t" k]
      by (auto simp: store_inv_def traced_step_def Get get_def v)
  next
    case False
    then have v: "map_of (sessions (tr_store t)) k = None"
      by (auto simp: contains_def map_of_eq_None_iff)
    show ?thesis using assms False v
      by (auto simp: store_inv_def traced_step_def Get get_def keys_of_def)
  qed
next
  case (Add k m now)
  show ?thesis
  proof (cases "add_message (tr_store t) k m now")
    case (Inl e)
    then show ?thesis using assms
      by (auto simp: store_inv_def traced_step_def Add keys_of_def)
  next
    case (Inr st')
    from add_message_Inr[OF Inr] obtain X where
      ks': "map fst (sessions st') = filter (\<lambda>x. x \<noteq> k) X @ [k]" and
      cap': "max_sessions st' = max_sessions (tr_store t)" and
      X: "(X = keys_of t \<and> (k \<in> set (keys_of t) \<or> int (length (keys_of t)) < max_sessions (tr_store t)))
       \<or> (X = tl (keys_of t) \<and> keys_of t \<noteq> [] \<and> k \<notin> set (keys_of t)
           \<and> max_sessions (tr_store t) \<le> int (length (keys_of t)))"
      unfolding keys_of_def by auto
    have ks: "keys_of (traced_step t op) = filter (\<lambda>x. x \<noteq> k) X @ [k]"
      using ks' by (simp add: traced_step_def Add Inr keys_of_def)
    have lt: "last_touched (traced_step t op) = (last_touched t)(k := Suc (tr_time t))"
      by (simp add: Add traced_step_def Inr)
    have dX: "distinct X" and sX: "sorted_wrt (\<lambda>a b. last_touched t a < last_touched t b) X"
      and bX: "\<forall>x \<in> set X. last_touched t x \<le> tr_time t"
      using X assms by (auto simp: store_inv_def distinct_tl sorted_wrt_tl dest: list.set_sel(2))
    have len: "0 \<le> cap \<Longrightarrow> int (length (filter (\<lambda>x. x \<noteq> k) X @ [k])) \<le> cap"
    proof -
      assume c: "0 \<le> cap"
      have mc: "max_sessions (tr_store t) = cap" and lc: "int (length (keys_of t)) \<le> cap"
        using assms c by (auto simp: store_inv_def)
      have fl: "int (length (filter (\<lambda>x. x \<noteq> k) X)) \<le> int (length X)"
        by simp
      have e: "int (length (filter (\<lambda>x. x \<noteq> k) X @ [k])) = int (length (filter (\<lambda>x. x \<noteq> k) X)) + 1"
        by simp
      from X show ?thesis
      proof (elim disjE conjE)
        assume "X = keys_of t" "k \<in> set (keys_of t)"
        then have "int (length (filter (\<lambda>x. x \<noteq> k) X)) + 1 = int (length (keys_of t))"
          using length_filter_neq_distinct[of X k] dX by simp
        then show ?thesis unfolding e using lc by linarith
      next
        assume "X = keys_of t" "int (length (keys_of t)) < max_sessions (tr_store t)"
        then have "int (length X) < cap" using mc by simp
        then show ?thesis unfolding e using fl by linarith
      next
        assume "X = tl (keys_of t)" "keys_of t \<noteq> []"
        then have "int (length X) + 1 = int (length (keys_of t))" by (cases "keys_of t") auto
        then show ?thesis unfolding e using lc fl by linarith
      qed
    qed
    show ?thesis
      unfolding store_inv_def ks lt
      using assms len dX bX sorted_wrt_filter_snoc[OF sX bX, of k] cap'
      by (auto simp: store_inv_def traced_step_def Add Inr)
  qed
next
  case (Clear k)
  show ?thesis
  proof (cases "contains (sessions (tr_store t)) k")
    case True
    have ks: "keys_of (traced_step t op) = filter (\<lambda>x. x \<noteq> k) (keys_of t)"
      using True by (simp add: traced_step_def Clear clear_def keys_of_def keys_filter)
    have lt: "last_touched (traced_step t op) = last_touched t"
      by (simp add: traced_step_def Clear)
    have fl: "int (length (filter (\<lambda>x. x \<noteq> k) (keys_of t))) \<le> int (length (keys_of t))"
      by simp
    have len: "0 \<le> cap \<Longrightarrow> int (length (filter (\<lambda>x. x \<noteq> k) (keys_of t))) \<le> cap"
      using assms fl unfolding store_inv_def by linarith
    show ?thesis
      unfolding store_inv_def ks lt
      using assms len True
      by (auto simp: store_inv_def traced_step_def Clear clear_def intro: sorted_wrt_filter)
  next
    case False
    then show ?thesis using assms
      by (auto simp: store_inv_def traced_step_def Clear clear_def keys_of_def)
  qed
qed

lemma store_inv_foldl: "store_inv cap t \<Longrightarrow> store_inv cap (foldl traced_step t ops)"
  by (induction ops arbitrary: t) (auto simp: store_inv_step)

lemma store_inv_run: "store_inv cap (run_ops cap ops)"
  unfolding run_ops_def by (rule store_inv_foldl[OF store_inv_init])

lemma map_of_filter_neq:
  "map_of (filter (\<lambda>p. fst p \<noteq> k) d) k' = (if k' = k then None else map_of d k')"
  by (induction d) auto

lemma map_of_append_message:
  "map_of (append_message k m d) k' =
     (if k' = k then map_option (\<lambda>v. v @ [m]) (map_of d k) else map_of d k')"
  by (induction d) (auto simp: append_message_def)

lemma map_of_move_to_end:
  "map_of (move_to_end k d) k' = map_of d k'"
  by (cases "map_of d k")
     (auto simp: move_to_end_def map_of_append map_of_filter_neq map_add_def split: option.splits)

lemma add_message_evicts:
  assumes "\<not> contains (sessions st) sid" "max_sessions st \<le> int (length (sessions st))"
    "sessions st \<noteq> []" "distinct (map fst (sessions st))"
  shows "\<exists>victim rest st'. get_all_sessions st = victim # rest
           \<and> add_message st sid m now = Inr st'
           \<and> get_all_sessions st' = rest @ [sid]
           \<and> (\<forall>k \<in> set rest. map_of (sessions st') k = map_of (sessions st) k)
           \<and> map_of (sessions st') sid = Some [backfill now m]"
proof -
  obtain v d where d: "sessions st = v # d" using assms(3) by (cases "sessions st") auto
  let ?st' = "st\<lparr>sessions := append_message sid (backfill now m) (move_to_end sid (d @ [(sid, [])]))\<rparr>"
  have r: "add_message st sid m now = Inr ?st'"
    using assms d by (simp add: add_message_def popitem_first_def)
  have notin: "sid \<notin> set (map fst d)" using assms(1) d by (auto simp: contains_def)
  have k: "get_all_sessions ?st' = map fst d @ [sid]"
    using notin by (simp add: get_all_sessions_def keys_append_message keys_move_to_end length_filter_neq_notin)
  have m: "\<forall>k \<in> set (map fst d). map_of (sessions ?st') k = map_of (sessions st) k"
  proof
    fix k assume kd: "k \<in> set (map fst d)"
    then have ne: "k \<noteq> sid" "k \<noteq> fst v" using notin assms(4) d by force+
    obtain w where w: "map_of d k = Some w"
      using kd by (cases "map_of d k") (auto simp: map_of_eq_None_iff)
    have "map_of (sessions ?st') k = map_of (d @ [(sid, [])]) k"
      using ne by (simp add: map_of_append_message map_of_move_to_end)
    also have "\<dots> = map_of d k" using w by (simp add: map_of_append map_add_def)
    also have "\<dots> = map_of (sessions st) k" using ne d by (cases v) simp
    finally show "map_of (sessions ?st') k = map_of (sessions st) k" .
  qed
  have dn: "map_of d sid = None" using notin by (simp add: map_of_eq_None_iff)
  have n: "map_of (sessions ?st') sid = Some [backfill now m]"
    using dn by (simp add: map_of_append_message map_of_move_to_end map_of_append map_add_def)
  show ?thesis using r k m n d by (auto simp: get_all_sessions_def)
qed

lemma get_present_last:
  assumes "contains (sessions st) sid"
  shows "last (get_all_sessions (snd (get st sid))) = sid"
proof -
  obtain old where old: "map_of (sessions st) sid = Some old"
    using assms by (cases "map_of (sessions st) sid") (auto simp: contains_def map_of_eq_None_iff)
  show ?thesis using assms old
    by (simp add: get_def get_all_sessions_def keys_move_to_end contains_def)
qed

lemma add_message_last:
  assumes "add_message st sid m now = Inr st'"
  shows "last (get_all_sessions st') = sid"
proof -
  from add_message_Inr[OF assms] obtain X where
    "map fst (sessions st') = filter (\<lambda>x. x \<noteq> sid) X @ [sid]" by metis
  then show ?thesis by (simp add: get_all_sessions_def)
qed



text \<open>
  Claim C4. After any sequence of \<open>get\<close>, \<open>add_message\<close> and \<open>clear\<close> on an initially
  empty store of capacity \<open>cap \<ge> 0\<close>, the store holds at most \<open>cap\<close> sessions.
  When the store is at capacity (\<open>cap \<ge> 1\<close>) and \<open>sid\<close> is not stored, \<open>add_message\<close>
  succeeds, removes exactly the first key \<open>victim\<close> and appends \<open>sid\<close>; every
  remaining session was touched strictly later than \<open>victim\<close> and keeps its messages.
  A \<open>get\<close> on a stored id and a successful \<open>add_message\<close> put the id last in the
  dictionary and stamp it with the current time in the recency log.
\<close>

theorem store_bounded_lru:
  assumes "0 \<le> cap" and "t = run_ops cap ops" and "st = tr_store t"
  shows "int (length (sessions st)) \<le> cap
     \<and> (\<forall>sid m now. 1 \<le> cap \<and> \<not> contains (sessions st) sid \<and> int (length (sessions st)) = cap \<longrightarrow>
           (\<exists>victim rest st'. get_all_sessions st = victim # rest
               \<and> add_message st sid m now = Inr st'
               \<and> get_all_sessions st' = rest @ [sid]
               \<and> (\<forall>k \<in> set rest. last_touched t victim < last_touched t k
                                  \<and> map_of (sessions st') k = map_of (sessions st) k)))
     \<and> (\<forall>sid. contains (sessions st) sid \<longrightarrow>
           last (get_all_sessions (tr_store (traced_step t (Get sid)))) = sid
           \<and> last_touched (traced_step t (Get sid)) sid = Suc (tr_time t))
     \<and> (\<forall>sid m now st'. add_message st sid m now = Inr st' \<longrightarrow>
           last (get_all_sessions (tr_store (traced_step t (Add sid m now)))) = sid
           \<and> last_touched (traced_step t (Add sid m now)) sid = Suc (tr_time t))"
proof -
  have inv: "store_inv cap t" unfolding assms(2) by (rule store_inv_run)
  have ks: "keys_of t = map fst (sessions st)" by (simp add: keys_of_def assms(3))
  have bound: "int (length (sessions st)) \<le> cap"
    using inv assms(1) by (simp add: store_inv_def ks)
  have evict: "\<exists>victim rest st'. get_all_sessions st = victim # rest
               \<and> add_message st sid m now = Inr st'
               \<and> get_all_sessions st' = rest @ [sid]
               \<and> (\<forall>k \<in> set rest. last_touched t victim < last_touched t k
                                  \<and> map_of (sessions st') k = map_of (sessions st) k)"
    if h: "1 \<le> cap" "\<not> contains (sessions st) sid" "int (length (sessions st)) = cap" for sid m now
  proof -
    have ne: "sessions st \<noteq> []" using h(1,3) by auto
    have mc: "max_sessions st \<le> int (length (sessions st))"
      using inv h(3) by (simp add: store_inv_def assms(3))
    have di: "distinct (map fst (sessions st))" using inv by (simp add: store_inv_def ks)
    from add_message_evicts[OF h(2) mc ne di, of m now] obtain victim rest st' where
      e: "get_all_sessions st = victim # rest" "add_message st sid m now = Inr st'"
         "get_all_sessions st' = rest @ [sid]"
         "\<forall>k \<in> set rest. map_of (sessions st') k = map_of (sessions st) k"
      by blast
    have "sorted_wrt (\<lambda>a b. last_touched t a < last_touched t b) (victim # rest)"
      using inv e(1) by (simp add: store_inv_def ks get_all_sessions_def)
    then have "\<forall>k \<in> set rest. last_touched t victim < last_touched t k" by simp
    with e show ?thesis by blast
  qed
  have getp: "last (get_all_sessions (tr_store (traced_step t (Get sid)))) = sid
           \<and> last_touched (traced_step t (Get sid)) sid = Suc (tr_time t)"
    if "contains (sessions st) sid" for sid
    using that get_present_last[OF that] by (simp add: traced_step_def assms(3))
  have addp: "last (get_all_sessions (tr_store (traced_step t (Add sid m now)))) = sid
           \<and> last_touched (traced_step t (Add sid m now)) sid = Suc (tr_time t)"
    if "add_message st sid m now = Inr st'" for sid m now st'
    using that add_message_last[OF that] by (simp add: traced_step_def assms(3))
  show ?thesis
  proof (intro conjI allI impI)
    show "int (length (sessions st)) \<le> cap" by (rule bound)
  next
    fix sid m now
    assume "1 \<le> cap \<and> \<not> contains (sessions st) sid \<and> int (length (sessions st)) = cap"
    then show "\<exists>victim rest st'. get_all_sessions st = victim # rest
               \<and> add_message st sid m now = Inr st'
               \<and> get_all_sessions st' = rest @ [sid]
               \<and> (\<forall>k \<in> set rest. last_touched t victim < last_touched t k
                                  \<and> map_of (sessions st') k = map_of (sessions st) k)"
      using evict by blast
  qed (use getp addp in blast)+
qed

lemma example_run:
  "sessions (tr_store (run_ops 2 example_ops)) =
     [(''B'', [backfill 2 hello]), (''A'', [backfill 1 hello])]"
  by (simp add: run_ops_def example_ops_def traced_step_def add_message_def get_def contains_def
      empty_store_def popitem_first_def move_to_end_def append_message_def)

theorem store_bounded_lru_witness:
  "get_all_sessions (tr_store (run_ops 2 example_ops)) = [''B'', ''A'']
   \<and> (\<exists>st'. add_message (tr_store (run_ops 2 example_ops)) ''C'' hello 4 = Inr st'
             \<and> get_all_sessions st' = [''A'', ''C''])
   \<and> last_touched (run_ops 2 example_ops) ''B'' < last_touched (run_ops 2 example_ops) ''A''"
proof -
  let ?t = "run_ops 2 example_ops"
  let ?st = "tr_store ?t"
  have ks: "get_all_sessions ?st = [''B'', ''A'']"
    by (simp add: get_all_sessions_def example_run)
  have pre: "1 \<le> (2::int) \<and> \<not> contains (sessions ?st) ''C'' \<and> int (length (sessions ?st)) = 2"
    by (simp add: example_run contains_def)
  from store_bounded_lru[of 2 ?t example_ops ?st] have
    "\<forall>sid m now. 1 \<le> (2::int) \<and> \<not> contains (sessions ?st) sid \<and> int (length (sessions ?st)) = 2 \<longrightarrow>
           (\<exists>victim rest st'. get_all_sessions ?st = victim # rest
               \<and> add_message ?st sid m now = Inr st'
               \<and> get_all_sessions st' = rest @ [sid]
               \<and> (\<forall>k \<in> set rest. last_touched ?t victim < last_touched ?t k
                                  \<and> map_of (sessions st') k = map_of (sessions ?st) k))"
    by simp
  with pre obtain victim rest st' where
    e: "get_all_sessions ?st = victim # rest" "add_message ?st ''C'' hello 4 = Inr st'"
       "get_all_sessions st' = rest @ [''C'']"
       "\<forall>k \<in> set rest. last_touched ?t victim < last_touched ?t k"
    by blast
  from e(1) ks have vr: "victim = ''B''" "rest = [''A'']" by simp_all
  show ?thesis using ks e(2,3,4) vr by simp
qed

text \<open>
  Claim C9. \<open>add_message\<close> on a session id already in the store never evicts, whatever
  the capacity: the call succeeds, the set of stored ids is the same (the other ids
  keep their relative order and the touched id moves to the end), every other
  session keeps its messages, the touched session gets the message appended, and
  \<open>max_sessions\<close> is unchanged.
\<close>

theorem add_message_present_keeps_sessions:
  assumes "contains (sessions st) sid"
  shows "\<exists>st' old. add_message st sid m now = Inr st'
           \<and> map_of (sessions st) sid = Some old
           \<and> get_all_sessions st' = filter (\<lambda>k. k \<noteq> sid) (get_all_sessions st) @ [sid]
           \<and> set (get_all_sessions st') = set (get_all_sessions st)
           \<and> (\<forall>k. k \<noteq> sid \<longrightarrow> map_of (sessions st') k = map_of (sessions st) k)
           \<and> map_of (sessions st') sid = Some (old @ [backfill now m])
           \<and> max_sessions st' = max_sessions st"
proof -
  obtain old where old: "map_of (sessions st) sid = Some old"
    using assms by (cases "map_of (sessions st) sid") (auto simp: contains_def map_of_eq_None_iff)
  let ?st' = "st\<lparr>sessions := append_message sid (backfill now m) (move_to_end sid (sessions st))\<rparr>"
  have r: "add_message st sid m now = Inr ?st'"
    using assms by (simp add: add_message_def)
  have k: "get_all_sessions ?st' = filter (\<lambda>k. k \<noteq> sid) (get_all_sessions st) @ [sid]"
    using assms by (simp add: get_all_sessions_def keys_append_message keys_move_to_end contains_def)
  have s: "set (get_all_sessions ?st') = set (get_all_sessions st)"
    unfolding k using assms by (auto simp: get_all_sessions_def contains_def)
  show ?thesis
    using r old k s by (auto simp: map_of_append_message map_of_move_to_end)
qed

theorem add_message_present_keeps_sessions_witness:
  "int (length (sessions (tr_store (run_ops 2 example_ops))))
     = max_sessions (tr_store (run_ops 2 example_ops))
   \<and> get_all_sessions (tr_store (run_ops 2 example_ops)) = [''B'', ''A'']
   \<and> (\<exists>st'. add_message (tr_store (run_ops 2 example_ops)) ''B'' hello 4 = Inr st'
            \<and> get_all_sessions st' = [''A'', ''B'']
            \<and> map_of (sessions st') ''A'' = Some [backfill 1 hello]
            \<and> map_of (sessions st') ''B'' = Some [backfill 2 hello, backfill 4 hello])"
proof -
  let ?st = "tr_store (run_ops 2 example_ops)"
  have c: "contains (sessions ?st) ''B''" by (simp add: example_run contains_def)
  have cap: "max_sessions ?st = 2"
    by (simp add: run_ops_def example_ops_def traced_step_def add_message_def get_def contains_def
        empty_store_def popitem_first_def move_to_end_def append_message_def)
  from add_message_present_keeps_sessions[OF c, of hello 4] obtain st' old where
    e: "add_message ?st ''B'' hello 4 = Inr st'"
       "map_of (sessions ?st) ''B'' = Some old"
       "get_all_sessions st' = filter (\<lambda>k. k \<noteq> ''B'') (get_all_sessions ?st) @ [''B'']"
       "\<forall>k. k \<noteq> ''B'' \<longrightarrow> map_of (sessions st') k = map_of (sessions ?st) k"
       "map_of (sessions st') ''B'' = Some (old @ [backfill 4 hello])"
    by blast
  from e(2) have old: "old = [backfill 2 hello]" by (simp add: example_run)
  from e(4) have a: "map_of (sessions st') ''A'' = map_of (sessions ?st) ''A''" by simp
  show ?thesis
    using e(1,3,5) a old cap by (simp add: example_run get_all_sessions_def)
qed

section \<open>Properties of truncation and prompt assembly\<close>

lemma truncate_loop_char:
  "\<exists>taken left. rs = taken @ left
      \<and> truncate_loop enc av rs sel cur = rev taken @ sel
      \<and> (taken \<noteq> [] \<longrightarrow> cur + int (total_tokens enc taken) \<le> av)
      \<and> (left \<noteq> [] \<longrightarrow> cur + int (total_tokens enc taken) + int (msg_tokens enc (hd left)) > av)"
proof (induction rs arbitrary: sel cur)
  case Nil
  show ?case by (simp add: total_tokens_def)
next
  case (Cons m rest)
  show ?case
  proof (cases "cur + int (msg_tokens enc m) \<le> av")
    case True
    from Cons.IH[of "m # sel" "cur + int (msg_tokens enc m)"] obtain taken left where
      h: "rest = taken @ left"
         "truncate_loop enc av rest (m # sel) (cur + int (msg_tokens enc m)) = rev taken @ m # sel"
         "taken \<noteq> [] \<longrightarrow> cur + int (msg_tokens enc m) + int (total_tokens enc taken) \<le> av"
         "left \<noteq> [] \<longrightarrow> cur + int (msg_tokens enc m) + int (total_tokens enc taken)
                          + int (msg_tokens enc (hd left)) > av"
      by blast
    have b: "cur + int (total_tokens enc (m # taken)) \<le> av"
      using h(3) True by (cases "taken = []") (simp_all add: total_tokens_def)
    show ?thesis
      apply (rule exI[of _ "m # taken"], rule exI[of _ left])
      using h True b by (auto simp: total_tokens_def add.assoc)
  next
    case False
    show ?thesis
      apply (rule exI[of _ "[]"], rule exI[of _ "m # rest"])
      using False by (simp add: total_tokens_def)
  qed
qed

lemma total_tokens_rev: "total_tokens enc (rev ms) = total_tokens enc ms"
  by (simp add: total_tokens_def rev_map[symmetric])

lemma truncate_messages_char:
  "\<exists>pre. messages = pre @ truncate_messages enc messages max_tokens
      \<and> (truncate_messages enc messages max_tokens \<noteq> [] \<longrightarrow>
            int (total_tokens enc (truncate_messages enc messages max_tokens)) \<le> max_tokens - 200)
      \<and> (pre \<noteq> [] \<longrightarrow>
            int (total_tokens enc (truncate_messages enc messages max_tokens))
              + int (msg_tokens enc (last pre)) > max_tokens - 200)"
proof (cases "messages = []")
  case True
  then show ?thesis by (simp add: truncate_messages_def)
next
  case False
  have "\<exists>taken left. rev messages = taken @ left
       \<and> truncate_loop enc (max_tokens - 200) (rev messages) [] 0 = rev taken
       \<and> (taken \<noteq> [] \<longrightarrow> int (total_tokens enc taken) \<le> max_tokens - 200)
       \<and> (left \<noteq> [] \<longrightarrow> int (total_tokens enc taken) + int (msg_tokens enc (hd left)) > max_tokens - 200)"
    using truncate_loop_char[of "rev messages" enc "max_tokens - 200" "[]" 0] by simp
  then obtain taken left where
    h: "rev messages = taken @ left"
       "truncate_loop enc (max_tokens - 200) (rev messages) [] 0 = rev taken"
       "taken \<noteq> [] \<longrightarrow> int (total_tokens enc taken) \<le> max_tokens - 200"
       "left \<noteq> [] \<longrightarrow> int (total_tokens enc taken) + int (msg_tokens enc (hd left)) > max_tokens - 200"
    by blast
  have t: "truncate_messages enc messages max_tokens = rev taken"
    using False h(2) by (simp add: truncate_messages_def)
  have m: "messages = rev left @ rev taken"
    using h(1) by (metis rev_append rev_rev_ident)
  have l: "left \<noteq> [] \<Longrightarrow> last (rev left) = hd left" by (simp add: last_rev)
  show ?thesis
    apply (rule exI[of _ "rev left"])
    using t m h(3,4) l by (simp add: total_tokens_rev)
qed

text \<open>
  Claim C5, as amended. For every message list and budget, \<open>_truncate_messages\<close>
  returns a suffix of the input, in the input's order. If the suffix is not empty
  its cumulative role-plus-content cost is at most \<open>budget - 200\<close>; for a budget
  below 200 nothing is selected. The scan stops at the first message that does not
  fit: when a message \<open>last pre\<close> is left out, adding its cost to the selection's
  exceeds \<open>budget - 200\<close>. Three messages of cost 300 each and budget 500 select
  only the most recent one.
\<close>

theorem truncate_messages_recent_suffix:
  "(\<exists>pre. messages = pre @ truncate_messages enc messages budget
       \<and> (pre \<noteq> [] \<longrightarrow>
            int (total_tokens enc (truncate_messages enc messages budget))
              + int (msg_tokens enc (last pre)) > budget - 200))
   \<and> (truncate_messages enc messages budget \<noteq> [] \<longrightarrow>
         int (total_tokens enc (truncate_messages enc messages budget)) \<le> budget - 200)
   \<and> (budget < 200 \<longrightarrow> truncate_messages enc messages budget = [])
   \<and> (\<forall>m1 m2 m3. msg_tokens enc m1 = 300 \<and> msg_tokens enc m2 = 300 \<and> msg_tokens enc m3 = 300
         \<longrightarrow> truncate_messages enc [m1, m2, m3] 500 = [m3])"
proof -
  from truncate_messages_char[of messages enc budget] obtain pre where
    h: "messages = pre @ truncate_messages enc messages budget"
       "truncate_messages enc messages budget \<noteq> [] \<longrightarrow>
            int (total_tokens enc (truncate_messages enc messages budget)) \<le> budget - 200"
       "pre \<noteq> [] \<longrightarrow>
            int (total_tokens enc (truncate_messages enc messages budget))
              + int (msg_tokens enc (last pre)) > budget - 200"
    by blast
  have small: "budget < 200 \<longrightarrow> truncate_messages enc messages budget = []"
    using h(2) by (cases "truncate_messages enc messages budget = []") auto
  have scen: "\<forall>m1 m2 m3. msg_tokens enc m1 = 300 \<and> msg_tokens enc m2 = 300 \<and> msg_tokens enc m3 = 300
         \<longrightarrow> truncate_messages enc [m1, m2, m3] 500 = [m3]"
    by (simp add: truncate_messages_def)
  from h(1,3) have "\<exists>pre. messages = pre @ truncate_messages enc messages budget
       \<and> (pre \<noteq> [] \<longrightarrow>
            int (total_tokens enc (truncate_messages enc messages budget))
              + int (msg_tokens enc (last pre)) > budget - 200)" by blast
  with h(2) small scen show ?thesis by blast
qed

lemma msg_tokens_char_codec:
  "msg_tokens char_codec m = length (role_str (role m)) + 2 + length (content m)"
  by (simp add: msg_tokens_def count_tokens_def char_codec_def)

theorem truncate_messages_recent_suffix_witness:
  "truncate_messages char_codec
     [mk_msg User (replicate 294 CHR ''a''), mk_msg User (replicate 294 CHR ''b''),
      mk_msg User (replicate 294 CHR ''c'')] 500
   = [mk_msg User (replicate 294 CHR ''c'')]"
proof -
  have c: "msg_tokens char_codec (mk_msg User (replicate 294 x)) = 300" for x
    by (simp add: msg_tokens_char_codec mk_msg_def role_str_def)
  from truncate_messages_recent_suffix[of "[]" char_codec 500] have
    "\<forall>m1 m2 m3. msg_tokens char_codec m1 = 300 \<and> msg_tokens char_codec m2 = 300
        \<and> msg_tokens char_codec m3 = 300
         \<longrightarrow> truncate_messages char_codec [m1, m2, m3] 500 = [m3]"
    by blast
  with c show ?thesis by blast
qed

text \<open>
  Claim C5 as stated fails for a budget below 200: nothing is selected, and the
  cost 0 of the empty selection is not at most \<open>budget - 200 < 0\<close>. main.py passes
  the request's \<open>max_tokens\<close> (1 to 1024) as this budget.
\<close>

theorem truncate_messages_small_budget_counterexample:
  "\<not> int (total_tokens char_codec (truncate_messages char_codec [mk_msg User ''Hello''] 100))
       \<le> 100 - 200"
  by (simp add: truncate_messages_def msg_tokens_char_codec total_tokens_def mk_msg_def role_str_def)

text \<open>
  Whenever \<open>_build_prompt\<close> returns, the instruction is the content of the most recent
  user message (or empty when there is none).
\<close>

lemma build_prompt_loop_instruction:
  assumes "build_prompt_loop msgs lu hist = Inr (lu', hist')"
  shows "lu' = (if filter (\<lambda>m. role m = User) msgs = [] then lu
                else content (last (filter (\<lambda>m. role m = User) msgs)))"
  using assms
proof (induction msgs arbitrary: lu hist)
  case Nil
  then show ?case by simp
next
  case (Cons m msgs)
  show ?case
  proof (cases "role m = User")
    case True
    from Cons.prems True obtain h where
      "build_prompt_loop msgs (content m) h = Inr (lu', hist')"
      by (auto split: if_splits sum.splits)
    from Cons.IH[OF this] show ?thesis using True by simp
  next
    case False
    from Cons.prems False obtain h where
      "build_prompt_loop msgs lu h = Inr (lu', hist')"
      by (auto split: if_splits)
    from Cons.IH[OF this] show ?thesis using False by simp
  qed
qed

lemma build_prompt_instruction:
  assumes "build_prompt msgs None = Inr prompt" "filter (\<lambda>m. role m = User) msgs \<noteq> []"
  shows "\<exists>history_context.
           prompt = ungrounded_template history_context
                      (content (last (filter (\<lambda>m. role m = User) msgs)))"
proof -
  from assms(1) obtain lu' hist' where l: "build_prompt_loop msgs [] [] = Inr (lu', hist')"
    by (cases "build_prompt_loop msgs [] []") (auto simp: build_prompt_def)
  from build_prompt_loop_instruction[OF l] assms(2)
  have "lu' = content (last (filter (\<lambda>m. role m = User) msgs))" by simp
  with assms(1) l show ?thesis by (auto simp: build_prompt_def truthy_def Let_def)
qed

text \<open>
  Claim C3. The most recent user message is the instruction, but the history is not
  in chronological order: a user message is appended to the history only when the
  next user message arrives, after the assistant replies that followed it. For the
  turns user \<open>q1\<close>, assistant \<open>a1\<close>, user \<open>q2\<close> the rendered history puts
  \<open>Assistant: a1\<close> before \<open>User: q1\<close>.
\<close>

theorem build_prompt_history_out_of_order:
  "build_prompt [mk_msg User ''q1'', mk_msg Assistant ''a1'', mk_msg User ''q2''] None
     = Inr (ungrounded_template
              (''Previous conversation:'' @ nl @ ''Assistant: a1'' @ nl @ ''User: q1'' @ nl @ nl)
              ''q2'')"
  by (simp add: build_prompt_def mk_msg_def mk_ChatMessage_def strip_def is_space_def
      build_history_context_def history_line_def truthy_def)

lemma build_prompt_loop_skip_system:
  "build_prompt_loop (filter (\<lambda>m. role m \<noteq> System) msgs) lu hist = build_prompt_loop msgs lu hist"
proof (induction msgs arbitrary: lu hist)
  case Nil
  show ?case by simp
next
  case (Cons m msgs)
  show ?case by (cases "role m") (simp_all add: Cons.IH split: sum.splits)
qed

lemma history_parts_skip_system:
  "concat (map history_line (filter (\<lambda>m. role m \<noteq> System) msgs)) = concat (map history_line msgs)"
  by (induction msgs) (auto simp: history_line_def)

lemma build_history_context_skip_system:
  "build_history_context (filter (\<lambda>m. role m \<noteq> System) msgs) = build_history_context msgs"
proof (cases "filter (\<lambda>m. role m \<noteq> System) msgs = []")
  case True
  then have "concat (map history_line msgs) = []"
    using history_parts_skip_system[of msgs] by simp
  with True show ?thesis by (simp add: build_history_context_def)
next
  case False
  then have "msgs \<noteq> []" by auto
  with False show ?thesis
    by (simp add: build_history_context_def history_parts_skip_system)
qed

lemma add_message_appends:
  assumes "add_message st sid m now = Inr st'"
  shows "map_of (sessions st') sid
           = Some ((case map_of (sessions st) sid of None \<Rightarrow> [] | Some old \<Rightarrow> old) @ [backfill now m])"
proof (cases "contains (sessions st) sid")
  case True
  then obtain old where old: "map_of (sessions st) sid = Some old"
    by (cases "map_of (sessions st) sid") (auto simp: contains_def map_of_eq_None_iff)
  show ?thesis using assms True old
    by (auto simp: add_message_def map_of_append_message map_of_move_to_end)
next
  case False
  then have n: "map_of (sessions st) sid = None"
    by (simp add: contains_def map_of_eq_None_iff)
  have n': "map_of (tl (sessions st)) sid = None"
    using False by (cases "sessions st") (auto simp: contains_def map_of_eq_None_iff)
  show ?thesis using assms False n n'
    by (auto simp: add_message_def popitem_first_def map_of_append_message map_of_move_to_end
        map_of_append map_add_def split: if_splits list.splits)
qed

lemma truncate_loop_shift:
  "truncate_loop enc av rs sel cur = truncate_loop enc (av - cur) rs [] 0 @ sel"
proof (induction rs arbitrary: sel cur av)
  case Nil
  show ?case by simp
next
  case (Cons m rest)
  show ?case
  proof (cases "cur + int (msg_tokens enc m) \<le> av")
    case True
    have "truncate_loop enc av (m # rest) sel cur
            = truncate_loop enc (av - (cur + int (msg_tokens enc m))) rest [] 0 @ m # sel"
      using True Cons.IH[where sel="m # sel" and cur="cur + int (msg_tokens enc m)" and av=av] by simp
    moreover have "truncate_loop enc (av - cur) (m # rest) [] 0
            = truncate_loop enc (av - cur - int (msg_tokens enc m)) rest [] 0 @ [m]"
      using True Cons.IH[where sel="[m]" and cur="int (msg_tokens enc m)" and av="av - cur"] by simp
    ultimately show ?thesis by (simp add: algebra_simps)
  next
    case False
    then show ?thesis by simp
  qed
qed

lemma truncate_messages_snoc:
  "truncate_messages enc (msgs @ [m]) budget =
     (if int (msg_tokens enc m) \<le> budget - 200
      then truncate_messages enc msgs (budget - int (msg_tokens enc m)) @ [m]
      else [])"
proof (cases "int (msg_tokens enc m) \<le> budget - 200")
  case True
  have "truncate_messages enc (msgs @ [m]) budget
          = truncate_loop enc (budget - 200) (rev msgs) [m] (int (msg_tokens enc m))"
    using True by (simp add: truncate_messages_def)
  also have "\<dots> = truncate_loop enc (budget - 200 - int (msg_tokens enc m)) (rev msgs) [] 0 @ [m]"
    by (rule truncate_loop_shift)
  also have "\<dots> = truncate_messages enc msgs (budget - int (msg_tokens enc m)) @ [m]"
    by (cases "msgs = []") (simp_all add: truncate_messages_def algebra_simps)
  finally show ?thesis using True by simp
next
  case False
  then show ?thesis by (simp add: truncate_messages_def)
qed

lemma truncate_loop_over_budget:
  "\<not> cur \<le> av \<Longrightarrow> truncate_loop enc av ys sel cur = sel"
  by (cases ys) auto

lemma truncate_loop_append:
  "truncate_loop enc av (xs @ ys) sel cur =
     (if cur + int (total_tokens enc xs) \<le> av
      then truncate_loop enc av ys (rev xs @ sel) (cur + int (total_tokens enc xs))
      else truncate_loop enc av xs sel cur)"
proof (induction xs arbitrary: sel cur)
  case Nil
  show ?case by (simp add: total_tokens_def truncate_loop_over_budget)
next
  case (Cons x xs)
  show ?case
  proof (cases "cur + int (msg_tokens enc x) \<le> av")
    case True
    show ?thesis
      using True Cons.IH[of "x # sel" "cur + int (msg_tokens enc x)"]
      by (simp add: total_tokens_def add.assoc)
  next
    case False
    have "0 \<le> int (total_tokens enc xs)" by simp
    then have "\<not> cur + int (total_tokens enc (x # xs)) \<le> av"
      using False by (simp add: total_tokens_def)
    then show ?thesis using False by simp
  qed
qed

lemma truncate_messages_append:
  assumes "post \<noteq> []"
  shows "truncate_messages enc (pre @ post) budget =
           (if int (total_tokens enc post) \<le> budget - 200
            then truncate_messages enc pre (budget - int (total_tokens enc post)) @ post
            else truncate_messages enc post budget)"
proof (cases "int (total_tokens enc post) \<le> budget - 200")
  case True
  have "truncate_messages enc (pre @ post) budget
          = truncate_loop enc (budget - 200) (rev post @ rev pre) [] 0"
    using assms by (simp add: truncate_messages_def)
  also have "\<dots> = truncate_loop enc (budget - 200) (rev pre) post (int (total_tokens enc post))"
    using True by (simp add: truncate_loop_append total_tokens_rev)
  also have "\<dots> = truncate_loop enc (budget - 200 - int (total_tokens enc post)) (rev pre) [] 0 @ post"
    by (rule truncate_loop_shift)
  also have "\<dots> = truncate_messages enc pre (budget - int (total_tokens enc post)) @ post"
    by (cases "pre = []") (simp_all add: truncate_messages_def algebra_simps)
  finally show ?thesis using True by simp
next
  case False
  have "truncate_messages enc (pre @ post) budget
          = truncate_loop enc (budget - 200) (rev post @ rev pre) [] 0"
    using assms by (simp add: truncate_messages_def)
  also have "\<dots> = truncate_loop enc (budget - 200) (rev post) [] 0"
    using False by (simp add: truncate_loop_append total_tokens_rev)
  also have "\<dots> = truncate_messages enc post budget"
    using assms by (simp add: truncate_messages_def)
  finally show ?thesis using False by simp
qed

lemma truncate_messages_keeps_from:
  assumes "int (total_tokens enc (s # post)) \<le> budget - 200"
  shows "truncate_messages enc (pre @ s # post) budget
           = truncate_messages enc pre (budget - int (total_tokens enc (s # post))) @ s # post"
  using truncate_messages_append[of "s # post" enc pre budget] assms by simp

lemma truncate_messages_stops_at:
  assumes "post = [] \<or> int (total_tokens enc post) \<le> budget - 200"
    and "int (total_tokens enc (s # post)) > budget - 200"
  shows "truncate_messages enc (pre @ s # post) budget = post"
proof -
  have a: "truncate_messages enc (pre @ s # post) budget = truncate_messages enc (s # post) budget"
    using truncate_messages_append[of "s # post" enc pre budget] assms(2) by simp
  show ?thesis
  proof (cases "post = []")
    case True
    have "\<not> int (msg_tokens enc s) \<le> budget - 200"
      using assms(2) True by (simp add: total_tokens_def)
    then show ?thesis using a True by (simp add: truncate_messages_def)
  next
    case False
    then have fit: "int (total_tokens enc post) \<le> budget - 200" using assms(1) by simp
    have "\<not> int (msg_tokens enc s) \<le> budget - int (total_tokens enc post) - 200"
      using assms(2) by (simp add: total_tokens_def)
    then have e: "truncate_messages enc [s] (budget - int (total_tokens enc post)) = []"
      by (simp add: truncate_messages_def)
    have "truncate_messages enc ([s] @ post) budget
            = truncate_messages enc [s] (budget - int (total_tokens enc post)) @ post"
      using truncate_messages_append[OF False, of enc "[s]" budget] fit by simp
    with a e show ?thesis by simp
  qed
qed

text \<open>
  Claim C10. \<open>_build_prompt\<close> and \<open>_build_history_context\<close> give the same result
  with the system messages removed from their input, so a system message is neither
  the instruction nor a history line. \<open>add_message\<close> stores a system message like
  any other (the session's list ends with it). In \<open>_truncate_messages\<close> a system
  message at any position is charged its cost: if it fits together with everything
  after it, it is selected and the messages before it are truncated with the budget
  reduced by the cost of it and of everything after it; if what follows it fits but
  it does not, the scan stops there and only what follows it is selected. The cost
  of every selection, system messages included, is within \<open>budget - 200\<close>.
\<close>

theorem system_messages_excluded_from_prompt:
  "build_prompt msgs search_results
     = build_prompt (filter (\<lambda>m. role m \<noteq> System) msgs) search_results
   \<and> build_history_context msgs = build_history_context (filter (\<lambda>m. role m \<noteq> System) msgs)
   \<and> (\<forall>st sid m now st'. role m = System \<and> add_message st sid m now = Inr st' \<longrightarrow>
         (\<exists>old. map_of (sessions st') sid = Some (old @ [backfill now m])))
   \<and> (\<forall>pre s post. role s = System \<and> int (total_tokens enc (s # post)) \<le> budget - 200 \<longrightarrow>
         truncate_messages enc (pre @ s # post) budget
           = truncate_messages enc pre (budget - int (total_tokens enc (s # post))) @ s # post)
   \<and> (\<forall>pre s post. role s = System
           \<and> (post = [] \<or> int (total_tokens enc post) \<le> budget - 200)
           \<and> int (total_tokens enc (s # post)) > budget - 200 \<longrightarrow>
         truncate_messages enc (pre @ s # post) budget = post)
   \<and> (truncate_messages enc msgs budget \<noteq> [] \<longrightarrow>
         int (total_tokens enc (truncate_messages enc msgs budget)) \<le> budget - 200)"
proof (intro conjI allI impI)
  show "build_prompt msgs search_results
     = build_prompt (filter (\<lambda>m. role m \<noteq> System) msgs) search_results"
    by (simp add: build_prompt_def build_prompt_loop_skip_system)
  show "build_history_context msgs = build_history_context (filter (\<lambda>m. role m \<noteq> System) msgs)"
    by (simp add: build_history_context_skip_system)
next
  fix st sid m now st'
  assume "role m = System \<and> add_message st sid m now = Inr st'"
  then show "\<exists>old. map_of (sessions st') sid = Some (old @ [backfill now m])"
    using add_message_appends[of st sid m now st'] by blast
next
  fix pre s post
  assume "role s = System \<and> int (total_tokens enc (s # post)) \<le> budget - 200"
  then show "truncate_messages enc (pre @ s # post) budget
           = truncate_messages enc pre (budget - int (total_tokens enc (s # post))) @ s # post"
    by (simp add: truncate_messages_keeps_from)
next
  fix pre s post
  assume "role s = System
           \<and> (post = [] \<or> int (total_tokens enc post) \<le> budget - 200)
           \<and> int (total_tokens enc (s # post)) > budget - 200"
  then show "truncate_messages enc (pre @ s # post) budget = post"
    by (intro truncate_messages_stops_at) simp_all
next
  assume ne: "truncate_messages enc msgs budget \<noteq> []"
  from truncate_messages_char[of msgs enc budget] ne
  show "int (total_tokens enc (truncate_messages enc msgs budget)) \<le> budget - 200"
    by blast
qed

theorem system_messages_excluded_from_prompt_witness:
  "truncate_messages char_codec [mk_msg System ''Be brief'', mk_msg User ''Hello''] 215
     = [mk_msg User ''Hello'']
   \<and> truncate_messages char_codec [mk_msg System ''Be brief'', mk_msg User ''Hello''] 230
     = [mk_msg System ''Be brief'', mk_msg User ''Hello'']
   \<and> truncate_messages char_codec [mk_msg User ''Hello'', mk_msg System ''Be brief''] 220
     = [mk_msg System ''Be brief'']
   \<and> build_prompt [mk_msg System ''Be brief'', mk_msg User ''Hello''] None
     = build_prompt [mk_msg User ''Hello''] None
   \<and> (\<exists>st'. add_message (empty_store 1000) ''s1'' (mk_msg System ''Be brief'') 7 = Inr st'
         \<and> map_of (sessions st') ''s1'' = Some [backfill 7 (mk_msg System ''Be brief'')])"
proof -
  let ?s = "mk_msg System ''Be brief''" and ?u = "mk_msg User ''Hello''"
  have r: "role ?s = System" by (simp add: mk_msg_def)
  have cs: "int (total_tokens char_codec [?s]) = 16"
    by (simp add: total_tokens_def msg_tokens_char_codec mk_msg_def role_str_def)
  have cu: "int (total_tokens char_codec [?u]) = 11"
    by (simp add: total_tokens_def msg_tokens_char_codec mk_msg_def role_str_def)
  have csu: "int (total_tokens char_codec [?s, ?u]) = 27"
    by (simp add: total_tokens_def msg_tokens_char_codec mk_msg_def role_str_def)
  have e: "truncate_messages char_codec [] b = []" for b
    by (simp add: truncate_messages_def)
  have tu: "truncate_messages char_codec [?u] (220 - 16) = []"
    by (simp add: truncate_messages_def msg_tokens_char_codec mk_msg_def role_str_def)
  have a: "add_message (empty_store 1000) ''s1'' ?s 7
             = Inr \<lparr>sessions = [(''s1'', [backfill 7 ?s])], max_sessions = 1000\<rparr>"
    by (simp add: add_message_def empty_store_def contains_def move_to_end_def append_message_def)
  note thm215 = system_messages_excluded_from_prompt[of "[?s, ?u]" None char_codec 215]
  note thm230 = system_messages_excluded_from_prompt[of "[?s, ?u]" None char_codec 230]
  note thm220 = system_messages_excluded_from_prompt[of "[?u, ?s]" None char_codec 220]
  have p1: "truncate_messages char_codec ([] @ ?s # [?u]) 215 = [?u]"
  proof -
    from thm215 have "role ?s = System
           \<and> ([?u] = [] \<or> int (total_tokens char_codec [?u]) \<le> 215 - 200)
           \<and> int (total_tokens char_codec (?s # [?u])) > 215 - 200 \<longrightarrow>
         truncate_messages char_codec ([] @ ?s # [?u]) 215 = [?u]" by blast
    then show ?thesis using r cu csu by simp
  qed
  have p2: "truncate_messages char_codec ([] @ ?s # [?u]) 230
              = truncate_messages char_codec [] (230 - int (total_tokens char_codec (?s # [?u]))) @ ?s # [?u]"
  proof -
    from thm230 have "role ?s = System \<and> int (total_tokens char_codec (?s # [?u])) \<le> 230 - 200 \<longrightarrow>
         truncate_messages char_codec ([] @ ?s # [?u]) 230
           = truncate_messages char_codec [] (230 - int (total_tokens char_codec (?s # [?u]))) @ ?s # [?u]"
      by blast
    then show ?thesis using r csu by simp
  qed
  have p3: "truncate_messages char_codec ([?u] @ ?s # []) 220
              = truncate_messages char_codec [?u] (220 - int (total_tokens char_codec (?s # []))) @ ?s # []"
  proof -
    from thm220 have "role ?s = System \<and> int (total_tokens char_codec (?s # [])) \<le> 220 - 200 \<longrightarrow>
         truncate_messages char_codec ([?u] @ ?s # []) 220
           = truncate_messages char_codec [?u] (220 - int (total_tokens char_codec (?s # []))) @ ?s # []"
      by blast
    then show ?thesis using r cs by simp
  qed
  have p4: "build_prompt [?s, ?u] None = build_prompt (filter (\<lambda>m. role m \<noteq> System) [?s, ?u]) None"
    using thm215 by blast
  have f: "filter (\<lambda>m. role m \<noteq> System) [?s, ?u] = [?u]" by (simp add: mk_msg_def)
  from p1 have q1: "truncate_messages char_codec [?s, ?u] 215 = [?u]" by simp
  from p2 e have q2: "truncate_messages char_codec [?s, ?u] 230 = [?s, ?u]" by simp
  from p3 cs tu have q3: "truncate_messages char_codec [?u, ?s] 220 = [?s]" by simp
  from p4 f have q4: "build_prompt [?s, ?u] None = build_prompt [?u] None" by simp
  from q1 q2 q3 q4 a show ?thesis by simp
qed

section \<open>Properties of prepare\_prompt and the search fallback\<close>

lemma add_message_succeeds:
  assumes "1 \<le> max_sessions st"
  shows "\<exists>st'. add_message st sid m now = Inr st' \<and> max_sessions st' = max_sessions st"
proof (cases "add_message st sid m now")
  case (Inl e)
  then have "sessions st = [] \<and> max_sessions st \<le> 0"
    by (auto simp: add_message_def contains_def popitem_first_def
        split: if_splits sum.splits list.splits)
  with assms show ?thesis by simp
next
  case (Inr st')
  then show ?thesis using add_message_keys(2)[OF Inr] by simp
qed

lemma add_new_messages_succeeds:
  assumes "1 \<le> max_sessions st"
  shows "\<exists>st' lu'. add_new_messages clock i sid msgs h st lu
            = (Inr (h @ stamp_all clock i msgs, lu'), st')
          \<and> max_sessions st' = max_sessions st"
  using assms
proof (induction msgs arbitrary: i h st lu)
  case Nil
  show ?case by simp
next
  case (Cons m msgs)
  from add_message_succeeds[OF Cons.prems, of sid m "clock i"] obtain st1 where
    s: "add_message st sid m (clock i) = Inr st1" "max_sessions st1 = max_sessions st" by blast
  then have "1 \<le> max_sessions st1" using Cons.prems by simp
  from Cons.IH[OF this, of "Suc i" "h @ [backfill (clock i) m]"
      "if role m = User then Some (backfill (clock i) m) else lu"]
  show ?case using s by auto
qed

lemma validated_backfill: "validated (backfill now m) = validated m"
  by (simp add: validated_def backfill_def)

lemma validated_stamp_all:
  "\<forall>m \<in> set msgs. validated m \<Longrightarrow> \<forall>m \<in> set (stamp_all clock i msgs). validated m"
  by (induction msgs arbitrary: i) (auto simp: validated_backfill)

lemma build_prompt_loop_validated:
  assumes "\<forall>m \<in> set msgs. validated m" "lu = [] \<or> strip lu \<noteq> []"
  shows "\<exists>lu' hist'. build_prompt_loop msgs lu hist = Inr (lu', hist')"
  using assms
proof (induction msgs arbitrary: lu hist)
  case Nil
  show ?case by simp
next
  case (Cons m msgs)
  have v: "content m = [] \<or> strip (content m) \<noteq> []"
    using Cons.prems(1) by (auto simp: validated_def)
  have rest: "\<forall>m \<in> set msgs. validated m" using Cons.prems(1) by simp
  show ?case
  proof (cases "role m")
    case System
    then show ?thesis using Cons.IH[OF rest Cons.prems(2), of hist] by simp
  next
    case User
    show ?thesis
    proof (cases "lu = []")
      case True
      then show ?thesis using User Cons.IH[OF rest v, of hist] by simp
    next
      case False
      then have "strip lu \<noteq> []" using Cons.prems(2) by simp
      then obtain h where h: "mk_ChatMessage User lu = Inr h"
        using False by (simp add: mk_ChatMessage_def)
      show ?thesis using User False h Cons.IH[OF rest v, of "hist @ [h]"] by simp
    qed
  next
    case Assistant
    then show ?thesis using Cons.IH[OF rest Cons.prems(2), of "hist @ [m]"] by simp
  qed
qed

lemma build_prompt_validated:
  assumes "\<forall>m \<in> set msgs. validated m"
  shows "\<exists>prompt. build_prompt msgs sr = Inr prompt"
proof -
  from build_prompt_loop_validated[OF assms, of "[]" "[]"] obtain lu' hist' where
    "build_prompt_loop msgs [] [] = Inr (lu', hist')" by auto
  then show ?thesis by (simp add: build_prompt_def Let_def)
qed


lemma truncate_messages_subset:
  "set (truncate_messages enc msgs budget) \<subseteq> set msgs"
proof -
  from truncate_messages_char[of msgs enc budget] obtain pre where
    "msgs = pre @ truncate_messages enc msgs budget" by blast
  then show ?thesis by (metis set_append sup_ge2)
qed

lemma ddgs_call_fails:
  assumes "\<forall>q n a b. ddgs_text gw q n a b = Raises \<or> ddgs_text gw q n a b = Returns []"
  shows "fst (ddgs_call gw ss q n a b) = Raises \<or> fst (ddgs_call gw ss q n a b) = Returns []"
  using assms by (simp add: ddgs_call_def)

lemma search_loop_fails:
  assumes "\<forall>q n a b. ddgs_text gw q n a b = Raises \<or> ddgs_text gw q n a b = Returns []"
  shows "fst (search_loop gw q n attempts ss) = []"
proof (induction attempts arbitrary: ss)
  case Nil
  show ?case by simp
next
  case (Cons a rest)
  obtain o1 ss1 where c1: "ddgs_call gw ss q n a DefaultBackend = (o1, ss1)" by (cases "ddgs_call gw ss q n a DefaultBackend")
  obtain o2 ss2 where c2: "ddgs_call gw ss1 q n a LiteBackend = (o2, ss2)" by (cases "ddgs_call gw ss1 q n a LiteBackend")
  have f1: "o1 = Raises \<or> o1 = Returns []"
    using ddgs_call_fails[OF assms, of ss q n a DefaultBackend] c1 by simp
  have f2: "o2 = Raises \<or> o2 = Returns []"
    using ddgs_call_fails[OF assms, of ss1 q n a LiteBackend] c2 by simp
  show ?case using c1 c2 f1 f2 Cons.IH by auto
qed

lemma search_fails:
  assumes "\<forall>q n a b. ddgs_text gw q n a b = Raises \<or> ddgs_text gw q n a b = Returns []"
  shows "fst (search cfg gw ss query max_results) = []"
  using search_loop_fails[OF assms] by (simp add: search_def)

lemma get_max_sessions: "max_sessions (snd (get st sid)) = max_sessions st"
  by (simp add: get_def split: option.splits)

lemma prepare_prompt_returns:
  assumes "1 \<le> max_sessions st"
    and "\<forall>m \<in> set (fst (get st sid)). validated m"
    and "\<forall>m \<in> set new_messages. validated m"
  shows "\<exists>st' ss' results prompt.
           prepare_prompt cfg enc gw clock st ss sid new_messages max_tokens
             = (Inr (prompt, count_tokens enc prompt,
                     (if results \<noteq> [] then Some (extract_sources_for_response results) else None),
                     results \<noteq> []), st', ss')
         \<and> build_prompt
              (truncate_messages enc (fst (get st sid) @ stamp_all clock 0 new_messages)
                 (int_or max_tokens (MAX_CONTEXT_TOKENS cfg)))
              (if results \<noteq> [] then Some (format_results_for_prompt results) else None)
             = Inr prompt
         \<and> (results = [] \<or> (\<exists>q. results = fst (search cfg gw ss q None)))"
proof -
  obtain stored st0 where g: "get st sid = (stored, st0)" by (cases "get st sid")
  have m0: "1 \<le> max_sessions st0" using assms(1) get_max_sessions[of st sid] g by simp
  from add_new_messages_succeeds[OF m0, of clock 0 sid new_messages stored None]
  obtain st1 lu where
    a: "add_new_messages clock 0 sid new_messages stored st0 None
          = (Inr (stored @ stamp_all clock 0 new_messages, lu), st1)" by blast
  let ?history = "stored @ stamp_all clock 0 new_messages"
  obtain results ss1 where
    r: "(case lu of None \<Rightarrow> ([], ss)
         | Some m \<Rightarrow> if should_search cfg (content m)
                     then search cfg gw ss (content m) None else ([], ss)) = (results, ss1)"
    by (cases "(case lu of None \<Rightarrow> ([], ss)
         | Some m \<Rightarrow> if should_search cfg (content m)
                     then search cfg gw ss (content m) None else ([], ss))")
  have rs: "results = [] \<or> (\<exists>q. results = fst (search cfg gw ss q None))"
  proof (cases lu)
    case None
    with r show ?thesis by simp
  next
    case (Some m)
    show ?thesis
    proof (cases "should_search cfg (content m)")
      case True
      with r Some have "fst (search cfg gw ss (content m) None) = results" by simp
      then show ?thesis by blast
    next
      case False
      with r Some show ?thesis by simp
    qed
  qed
  let ?sr = "if results \<noteq> [] then Some (format_results_for_prompt results) else None"
  let ?trunc = "truncate_messages enc ?history (int_or max_tokens (MAX_CONTEXT_TOKENS cfg))"
  have vh: "\<forall>m \<in> set ?history. validated m"
    using assms(2,3) g validated_stamp_all[of new_messages clock 0] by auto
  have vt: "\<forall>m \<in> set ?trunc. validated m"
    using vh truncate_messages_subset[of enc ?history] by blast
  from build_prompt_validated[OF vt, of ?sr] obtain prompt where
    b: "build_prompt ?trunc ?sr = Inr prompt" by blast
  have "prepare_prompt cfg enc gw clock st ss sid new_messages max_tokens
             = (Inr (prompt, count_tokens enc prompt,
                     (if results \<noteq> [] then Some (extract_sources_for_response results) else None),
                     results \<noteq> []), st1, ss1)"
    unfolding prepare_prompt_def g prod.case a sum.case r Let_def b by (rule refl)
  with b rs g show ?thesis by (metis fst_conv)
qed


lemma validated_mk_msg_examples:
  "validated (mk_msg User ''Hello'')" "validated (mk_msg User ''weather today'')"
  by (simp_all add: validated_def mk_msg_def strip_def is_space_def)

lemma get_empty_store: "get (empty_store cap) sid = ([], empty_store cap)"
  by (simp add: get_def empty_store_def)



lemma length_ungrounded_template:
  "length (ungrounded_template hc lu) = 137 + length hc + length lu"
  by (simp add: ungrounded_template_def DEFAULT_SYSTEM_def nl_def)

lemma count_tokens_char_codec: "count_tokens char_codec s = length s"
  by (simp add: count_tokens_def char_codec_def)

text \<open>
  Claim C1, as amended. With a store of positive capacity and validated messages,
  \<open>prepare_prompt\<close> returns the prompt built from a suffix of the history (the stored
  messages followed by the new ones) and its token count; if that suffix is not
  empty, the cumulative role-plus-content cost of its messages is at most
  \<open>max_ctx - 200\<close>, where \<open>max_ctx\<close> is \<open>max_tokens\<close> when given and non-zero and
  \<open>MAX_CONTEXT_TOKENS\<close> otherwise. Nothing bounds the token count of the prompt
  itself.
\<close>

theorem prepare_prompt_selected_cost_bounded:
  assumes "1 \<le> max_sessions st"
    and "\<forall>m \<in> set (fst (get st sid)). validated m"
    and "\<forall>m \<in> set new_messages. validated m"
    and "history = fst (get st sid) @ stamp_all clock 0 new_messages"
    and "max_ctx = int_or max_tokens (MAX_CONTEXT_TOKENS cfg)"
  shows "\<exists>prompt srcs used_search st' ss' search_results.
           prepare_prompt cfg enc gw clock st ss sid new_messages max_tokens
             = (Inr (prompt, count_tokens enc prompt, srcs, used_search), st', ss')
         \<and> build_prompt (truncate_messages enc history max_ctx) search_results = Inr prompt
         \<and> suffix (truncate_messages enc history max_ctx) history
         \<and> (truncate_messages enc history max_ctx \<noteq> [] \<longrightarrow>
               int (total_tokens enc (truncate_messages enc history max_ctx)) \<le> max_ctx - 200)"
proof -
  from prepare_prompt_returns[OF assms(1,2,3), of cfg enc gw clock ss max_tokens]
  obtain st' ss' results prompt where
    p: "prepare_prompt cfg enc gw clock st ss sid new_messages max_tokens
             = (Inr (prompt, count_tokens enc prompt,
                     (if results \<noteq> [] then Some (extract_sources_for_response results) else None),
                     results \<noteq> []), st', ss')"
       "build_prompt (truncate_messages enc history max_ctx)
              (if results \<noteq> [] then Some (format_results_for_prompt results) else None)
             = Inr prompt"
    unfolding assms(4,5) by blast
  from truncate_messages_char[of history enc max_ctx] obtain pre where
    t: "history = pre @ truncate_messages enc history max_ctx"
       "truncate_messages enc history max_ctx \<noteq> [] \<longrightarrow>
            int (total_tokens enc (truncate_messages enc history max_ctx)) \<le> max_ctx - 200"
    by blast
  from t(1) have "suffix (truncate_messages enc history max_ctx) history"
    by (metis suffixI)
  with p t(2) show ?thesis by blast
qed

lemma prepare_prompt_gateway_down:
  assumes "validated m"
    and "build_prompt (truncate_messages char_codec [backfill 100 m]
           (int_or max_tokens (MAX_CONTEXT_TOKENS default_config))) None = Inr P"
  shows "fst (prepare_prompt default_config char_codec gateway_down example_clock
            (empty_store 1000) fresh_search_state ''s1'' [m] max_tokens)
         = Inr (P, count_tokens char_codec P, None, False)"
proof -
  have c: "1 \<le> max_sessions (empty_store 1000)" by (simp add: empty_store_def)
  have v0: "\<forall>x \<in> set (fst (get (empty_store 1000) ''s1'')). validated x"
    by (simp add: get_empty_store)
  have v1: "\<forall>x \<in> set [m]. validated x" using assms(1) by simp
  have s: "fst (search default_config gateway_down fresh_search_state q None) = []" for q
    by (rule search_fails) (simp add: gateway_down_def)
  from prepare_prompt_returns[OF c v0 v1, of default_config char_codec gateway_down example_clock
      fresh_search_state max_tokens]
  obtain st' ss' results prompt where
    p: "prepare_prompt default_config char_codec gateway_down example_clock
            (empty_store 1000) fresh_search_state ''s1'' [m] max_tokens
             = (Inr (prompt, count_tokens char_codec prompt,
                     (if results \<noteq> [] then Some (extract_sources_for_response results) else None),
                     results \<noteq> []), st', ss')"
       "build_prompt
              (truncate_messages char_codec (fst (get (empty_store 1000) ''s1'') @ stamp_all example_clock 0 [m])
                 (int_or max_tokens (MAX_CONTEXT_TOKENS default_config)))
              (if results \<noteq> [] then Some (format_results_for_prompt results) else None)
             = Inr prompt"
       "results = [] \<or> (\<exists>q. results = fst (search default_config gateway_down fresh_search_state q None))"
    by blast
  from p(3) s have e: "results = []" by auto
  from p(2) e assms(2) have "prompt = P"
    by (simp add: get_empty_store example_clock_def)
  with p(1) e show ?thesis by simp
qed

theorem prepare_prompt_selected_cost_bounded_witness:
  "fst (prepare_prompt default_config char_codec gateway_down example_clock
          (empty_store 1000) fresh_search_state ''s1'' [mk_msg User ''Hello''] (Some 300))
     = Inr (ungrounded_template [] ''Hello'',
            count_tokens char_codec (ungrounded_template [] ''Hello''), None, False)
   \<and> int (total_tokens char_codec [backfill 100 (mk_msg User ''Hello'')]) \<le> 300 - 200"
proof -
  let ?h = "[backfill 100 (mk_msg User ''Hello'')]"
  have c: "1 \<le> max_sessions (empty_store 1000)" by (simp add: empty_store_def)
  have v0: "\<forall>m \<in> set (fst (get (empty_store 1000) ''s1'')). validated m"
    by (simp add: get_empty_store)
  have v1: "\<forall>m \<in> set [mk_msg User ''Hello'']. validated m"
    by (simp add: validated_mk_msg_examples)
  have h: "?h = fst (get (empty_store 1000) ''s1'') @ stamp_all example_clock 0 [mk_msg User ''Hello'']"
    by (simp add: get_empty_store example_clock_def)
  have m: "(300::int) = int_or (Some 300) (MAX_CONTEXT_TOKENS default_config)"
    by (simp add: int_or_def)
  from prepare_prompt_selected_cost_bounded[OF c v0 v1 h m, of char_codec gateway_down fresh_search_state]
  have b: "truncate_messages char_codec ?h 300 \<noteq> [] \<longrightarrow>
               int (total_tokens char_codec (truncate_messages char_codec ?h 300)) \<le> 300 - 200"
    by blast
  have t: "truncate_messages char_codec ?h 300 = ?h"
    by (simp add: truncate_messages_def msg_tokens_char_codec mk_msg_def role_str_def backfill_def)
  have bp: "build_prompt (truncate_messages char_codec ?h
           (int_or (Some 300) (MAX_CONTEXT_TOKENS default_config))) None
        = Inr (ungrounded_template [] ''Hello'')"
    unfolding m[symmetric] t
    by (simp add: build_prompt_def mk_msg_def backfill_def build_history_context_def truthy_def)
  from b t have "int (total_tokens char_codec ?h) \<le> 300 - 200" by simp
  with prepare_prompt_gateway_down[OF validated_mk_msg_examples(1) bp] show ?thesis by simp
qed

text \<open>
  Claim C1 as stated fails: the budget is applied to the messages alone, and the
  prompt adds the system preamble and the template around them. With the default
  configuration and \<open>max_tokens = 200\<close> no message is selected and the prompt, the
  bare template, still has tokens, more than \<open>200 - 200\<close>; this holds for any codec
  that gives a non-empty text at least one token. With no \<open>max_tokens\<close> and one
  message of 810 characters, under the one-token-per-character codec the message
  costs 816 tokens and is selected, and the prompt has 947 tokens, more than
  \<open>1024 - 200\<close>.
\<close>

theorem prepare_prompt_token_count_counterexample:
  "fst (prepare_prompt default_config char_codec gateway_down example_clock
          (empty_store 1000) fresh_search_state ''s1'' [mk_msg User ''Hello''] (Some 200))
     = Inr (ungrounded_template [] [], count_tokens char_codec (ungrounded_template [] []), None, False)
   \<and> \<not> int (count_tokens char_codec (ungrounded_template [] [])) \<le> 200 - 200
   \<and> fst (prepare_prompt default_config char_codec gateway_down example_clock
          (empty_store 1000) fresh_search_state ''s1''
          [mk_msg User (replicate 810 CHR ''a'')] None)
     = Inr (ungrounded_template [] (replicate 810 CHR ''a''),
            count_tokens char_codec (ungrounded_template [] (replicate 810 CHR ''a'')), None, False)
   \<and> \<not> int (count_tokens char_codec (ungrounded_template [] (replicate 810 CHR ''a'')))
         \<le> MAX_CONTEXT_TOKENS default_config - 200"
proof -
  have b1: "build_prompt (truncate_messages char_codec [backfill 100 (mk_msg User ''Hello'')]
           (int_or (Some 200) (MAX_CONTEXT_TOKENS default_config))) None
        = Inr (ungrounded_template [] [])"
    by (simp add: int_or_def truncate_messages_def msg_tokens_char_codec mk_msg_def role_str_def
        backfill_def build_prompt_def build_history_context_def truthy_def)
  have a': "\<not> int (count_tokens char_codec (ungrounded_template [] [])) \<le> 200 - 200"
    by (simp add: count_tokens_char_codec length_ungrounded_template)
  let ?long = "mk_msg User (replicate 810 CHR ''a'')"
  have sp: "\<not> is_space CHR ''a''" by (simp add: is_space_def)
  have st: "strip (replicate 810 CHR ''a'') = replicate 810 CHR ''a''"
    using sp by (simp add: strip_def)
  have v: "validated ?long"
    using st by (simp add: validated_def mk_msg_def)
  have t2: "truncate_messages char_codec [backfill 100 ?long]
           (int_or None (MAX_CONTEXT_TOKENS default_config)) = [backfill 100 ?long]"
    by (simp add: int_or_def default_config_def truncate_messages_def msg_tokens_char_codec
        mk_msg_def role_str_def backfill_def)
  have b2: "build_prompt (truncate_messages char_codec [backfill 100 ?long]
           (int_or None (MAX_CONTEXT_TOKENS default_config))) None
        = Inr (ungrounded_template [] (replicate 810 CHR ''a''))"
    unfolding t2
    by (simp add: build_prompt_def mk_msg_def backfill_def build_history_context_def truthy_def
       )
  have b': "\<not> int (count_tokens char_codec (ungrounded_template [] (replicate 810 CHR ''a'')))
         \<le> MAX_CONTEXT_TOKENS default_config - 200"
    by (simp add: count_tokens_char_codec length_ungrounded_template default_config_def)
  from prepare_prompt_gateway_down[OF validated_mk_msg_examples(1) b1]
       prepare_prompt_gateway_down[OF v b2] a' b'
  show ?thesis by blast
qed

section \<open>Properties of the decoding engine\<close>

lemma slice_from_neg_suffix:
  "0 < k \<Longrightarrow> slice_from (- k) xs = drop (length xs - nat k) xs"
  by (auto simp: slice_from_def nat_diff_distrib' nat_add_distrib intro: arg_cong[where f="\<lambda>n. drop n xs"])

text \<open>
  For \<open>1 \<le> max_tokens < GPT2_BLOCK_SIZE\<close> the truncation step keeps a suffix of the
  encoded prompt of length at most \<open>GPT2_BLOCK_SIZE - max_tokens\<close>.
\<close>

lemma truncate_input_ids_below_window:
  assumes "1 \<le> max_tokens" "max_tokens < GPT2_BLOCK_SIZE cfg"
  shows "suffix (truncate_input_ids cfg max_tokens input_ids) input_ids
       \<and> int (length (truncate_input_ids cfg max_tokens input_ids)) \<le> GPT2_BLOCK_SIZE cfg - max_tokens"
proof (cases "int (length input_ids) > GPT2_BLOCK_SIZE cfg - max_tokens")
  case True
  have k: "0 < GPT2_BLOCK_SIZE cfg - max_tokens" using assms by simp
  have t: "truncate_input_ids cfg max_tokens input_ids
             = drop (length input_ids - nat (GPT2_BLOCK_SIZE cfg - max_tokens)) input_ids"
    using True slice_from_neg_suffix[OF k] by (simp add: truncate_input_ids_def)
  show ?thesis unfolding t using True k by (auto simp: suffix_drop)
next
  case False
  then show ?thesis by (simp add: truncate_input_ids_def)
qed

text \<open>
  Claim C2. At \<open>max_tokens = GPT2_BLOCK_SIZE\<close> the step does not truncate: the
  slice \<open>input_ids[-(max_context - max_tokens):]\<close> is \<open>input_ids[-0:]\<close>, the whole
  list. With the default block size 1024 and \<open>max_tokens = 1024\<close> (the largest value
  a request may carry) a prompt of three ids keeps all three, more than
  \<open>1024 - 1024 = 0\<close>.
\<close>

theorem truncate_input_ids_full_window_keeps_all:
  "truncate_input_ids default_config 1024 [11, 22, 33] = [11, 22, 33]
   \<and> \<not> int (length (truncate_input_ids default_config 1024 [11, 22, 33]))
         \<le> GPT2_BLOCK_SIZE default_config - 1024"
  by (simp add: truncate_input_ids_def default_config_def slice_from_def)







lemma fold_max_ge: "(a::real) \<le> fold max xs a"
  by (induction xs arbitrary: a) (auto intro: order_trans[OF max.cobounded2])

lemma fold_max_mem_ge: "x \<in> set xs \<Longrightarrow> (x::real) \<le> fold max xs a"
proof (induction xs arbitrary: a)
  case Nil
  then show ?case by simp
next
  case (Cons y ys)
  show ?case
  proof (cases "x = y")
    case True
    have "y \<le> max y a" by simp
    also have "\<dots> \<le> fold max ys (max y a)" by (rule fold_max_ge)
    finally show ?thesis using True by simp
  next
    case False
    with Cons show ?thesis by simp
  qed
qed

lemma fold_max_in: "fold max xs (a::real) \<in> set (a # xs)"
proof (induction xs arbitrary: a)
  case Nil
  show ?case by simp
next
  case (Cons y ys)
  have m: "max y a = a \<or> max y a = y" by (auto simp: max_def)
  have "fold max ys (max y a) \<in> set (max y a # ys)" by (rule Cons.IH)
  then have "fold max ys (max y a) = max y a \<or> fold max ys (max y a) \<in> set ys" by simp
  then show ?case using m by auto
qed

lemma map_filter_id_map_Some: "List.map_filter id (map Some xs) = xs"
  by (induction xs) (simp_all add: List.map_filter_simps)

lemma max_score_ge:
  assumes "x \<in> set xs"
  shows "x \<le> max_score (map Some xs)"
proof (cases xs)
  case Nil
  with assms show ?thesis by simp
next
  case (Cons y ys)
  have "x \<le> fold max ys y"
    using assms Cons fold_max_ge[of y ys] fold_max_mem_ge[of x ys y] by auto
  then show ?thesis by (simp add: max_score_def map_filter_id_map_Some Cons)
qed

lemma max_score_in:
  assumes "xs \<noteq> []"
  shows "max_score (map Some xs) \<in> set xs"
proof -
  obtain y ys where c: "xs = y # ys" using assms by (cases xs) auto
  show ?thesis using fold_max_in[of ys y]
    by (simp add: max_score_def map_filter_id_map_Some c)
qed

lemma max_score_eq:
  assumes "k < length xs" "\<forall>j < length xs. xs ! j \<le> xs ! k"
  shows "max_score (map Some xs) = xs ! k"
proof -
  have ne: "xs \<noteq> []" using assms(1) by auto
  have "max_score (map Some xs) \<le> xs ! k"
    using max_score_in[OF ne] assms(2) by (auto simp: in_set_conv_nth)
  moreover have "xs ! k \<le> max_score (map Some xs)"
    using assms(1) by (intro max_score_ge) simp
  ultimately show ?thesis by simp
qed




























end
